theory Spec2Isabelle
  imports Complex_Main "HOL-Library.AList"
begin

section \<open>Data model (types.ts)\<close>

text \<open>
  A JavaScript \<open>number\<close> is modelled as a real: the scheduler only compares numbers,
  counts with them and divides two small counts, and on the finite values that a parsed
  JSON answer can hold these agree with the reals; the one number that the code computes
  from a value of any kind is the confidence of an evaluation, typed \<open>jsNumber\<close> below.
  Clock readings (\<open>Date.now()\<close>) are
  natural numbers, durations (differences of two readings) are integers.
\<close>

type_synonym number = real

text \<open>
  The confidence that an evaluation yields is the one number of a run that need not be
  finite: the shipped \<open>evaluate\<close> computes it with \<open>Math.min\<close> and \<open>Math.max\<close> from a
  member of the parsed answer of the model, which can be any JSON value, a text or a number
  beyond the double range included. Both comparisons of the task loop are false on \<open>NaN\<close>.
\<close>

datatype jsNumber = Num number | PlusInfinity | MinusInfinity | NaN

text \<open>\<open>x < y\<close> and \<open>x >= y\<close> for a finite \<open>y\<close>.\<close>

fun js_less :: "jsNumber \<Rightarrow> number \<Rightarrow> bool" where
  "js_less (Num x) y = (x < y)"
| "js_less PlusInfinity y = False"
| "js_less MinusInfinity y = True"
| "js_less NaN y = False"

fun js_atLeast :: "jsNumber \<Rightarrow> number \<Rightarrow> bool" where
  "js_atLeast (Num x) y = (x \<ge> y)"
| "js_atLeast PlusInfinity y = True"
| "js_atLeast MinusInfinity y = False"
| "js_atLeast NaN y = False"

text \<open>\<open>Math.min(a, x)\<close> and \<open>Math.max(a, x)\<close> for a finite \<open>a\<close>: \<open>NaN\<close> when \<open>x\<close> is.\<close>

fun Math_min :: "number \<Rightarrow> jsNumber \<Rightarrow> jsNumber" where
  "Math_min a (Num x) = Num (min a x)"
| "Math_min a PlusInfinity = Num a"
| "Math_min a MinusInfinity = MinusInfinity"
| "Math_min a NaN = NaN"

fun Math_max :: "number \<Rightarrow> jsNumber \<Rightarrow> jsNumber" where
  "Math_max a (Num x) = Num (max a x)"
| "Math_max a PlusInfinity = PlusInfinity"
| "Math_max a MinusInfinity = Num a"
| "Math_max a NaN = NaN"

datatype status = pending | in_progress | completed | failed

text \<open>
  The payload of a tool (\<open>any\<close> in the source): \<open>null\<close> or \<open>undefined\<close>, on which a
  property read raises a TypeError, or a value with an optional \<open>confidence\<close> property.
\<close>

datatype toolOutput =
    OutNull
  | OutUndefined
  | Output (out_confidence: "number option") (out_payload: string)

record toolResult =
  tool_success :: bool
  tool :: string
  tool_output :: toolOutput
  tool_duration :: int
  tool_confidence :: number
  tool_error :: "string option"

record taskResult =
  success :: bool
  confidence :: jsNumber
  iterations :: nat
  results :: "toolResult list"
  duration :: "int option"
  error :: "string option"

record task =
  task_id :: string
  task_name :: string
  description :: string
  priority :: number
  dependencies :: "string list option"
  successThreshold :: number
  estimatedComplexity :: number
  requiresIterativeExecution :: bool
  maxIterations :: "number option"
  requiredCapabilities :: "string list"
  status :: status
  result :: "taskResult option"
  completedAt :: "nat option"

record goalDefinition =
  originalGoal :: string
  successCriteria :: "string list"
  constraints :: "string list"
  expectedOutcomes :: "string list"
  challenges :: "string list"

text \<open>
  \<open>x || d\<close> on an optional number: \<open>undefined\<close> and \<open>0\<close> are both falsy and give the default.
\<close>

definition or_default :: "number option \<Rightarrow> number \<Rightarrow> number" where
  "or_default x d = (case x of None \<Rightarrow> d | Some v \<Rightarrow> if v = 0 then d else v)"

section \<open>Checklist (types.ts, class Checklist)\<close>

text \<open>
  The private \<open>Map<string, Task>\<close> is an association list in insertion order, as a
  JavaScript Map iterates: \<open>get\<close> is \<^const>\<open>map_of\<close>, \<open>set\<close> is \<^const>\<open>AList.update\<close> (an existing key
  keeps its place, a new key goes to the end), \<open>values()\<close> is \<open>map snd\<close>. The key of an
  entry is the address of its task object: mutating the object returned by \<open>get k\<close>
  rewrites the entry stored under \<open>k\<close>.
\<close>

record checklist =
  tasks :: "(string \<times> task) list"
  goalDefinition :: goalDefinition

text \<open>\<open>new Map(entries)\<close>: one \<open>set\<close> per entry, in order.\<close>

definition Map_of_entries :: "(string \<times> 'v) list \<Rightarrow> (string \<times> 'v) list" where
  "Map_of_entries es = foldl (\<lambda>m (k, v). AList.update k v m) [] es"

definition Checklist :: "task list \<Rightarrow> goalDefinition \<Rightarrow> checklist" where
  "Checklist ts gd =
     \<lparr> tasks = Map_of_entries (map (\<lambda>t. (task_id t, t\<lparr>status := pending\<rparr>)) ts),
       goalDefinition = gd \<rparr>"

text \<open>\<open>now\<close> is the reading of \<open>Date.now()\<close> at the call.\<close>

definition updateTaskStatus :: "nat \<Rightarrow> string \<Rightarrow> taskResult \<Rightarrow> checklist \<Rightarrow> checklist" where
  "updateTaskStatus now taskId res c =
     (case map_of (tasks c) taskId of
        None \<Rightarrow> c
      | Some t \<Rightarrow>
          c\<lparr>tasks := AList.update taskId
                (t\<lparr>status := (if success res then completed else failed),
                   result := Some res,
                   completedAt := Some now\<rparr>) (tasks c)\<rparr>)"

definition setTaskInProgress :: "string \<Rightarrow> checklist \<Rightarrow> checklist" where
  "setTaskInProgress taskId c =
     (case map_of (tasks c) taskId of
        None \<Rightarrow> c
      | Some t \<Rightarrow> c\<lparr>tasks := AList.update taskId (t\<lparr>status := in_progress\<rparr>) (tasks c)\<rparr>)"

text \<open>The filter predicate of \<open>getAvailableTasks\<close>; the \<open>for\<close> loop over the dependencies is \<^const>\<open>list_all\<close>.\<close>

definition depsCompleted :: "checklist \<Rightarrow> string list \<Rightarrow> bool" where
  "depsCompleted c deps =
     list_all (\<lambda>depId. case map_of (tasks c) depId of
                          None \<Rightarrow> False
                        | Some dep \<Rightarrow> status dep = completed) deps"

definition isAvailable :: "checklist \<Rightarrow> task \<Rightarrow> bool" where
  "isAvailable c t =
     (if status t \<noteq> pending then False
      else (case dependencies t of
              None \<Rightarrow> True
            | Some deps \<Rightarrow> if length deps > 0 then depsCompleted c deps else True))"

definition getAvailableTasks :: "checklist \<Rightarrow> task list" where
  "getAvailableTasks c = filter (isAvailable c) (map snd (tasks c))"

definition getCompletedTasks :: "checklist \<Rightarrow> task list" where
  "getCompletedTasks c = filter (\<lambda>t. status t = completed) (map snd (tasks c))"

definition getFailedTasks :: "checklist \<Rightarrow> task list" where
  "getFailedTasks c = filter (\<lambda>t. status t = failed) (map snd (tasks c))"

definition getPendingTasks :: "checklist \<Rightarrow> task list" where
  "getPendingTasks c = filter (\<lambda>t. status t = pending) (map snd (tasks c))"

definition getInProgressTasks :: "checklist \<Rightarrow> task list" where
  "getInProgressTasks c = filter (\<lambda>t. status t = in_progress) (map snd (tasks c))"

definition getAllTasks :: "checklist \<Rightarrow> task list" where
  "getAllTasks c = map snd (tasks c)"

definition getTask :: "checklist \<Rightarrow> string \<Rightarrow> task option" where
  "getTask c taskId = map_of (tasks c) taskId"

subsection \<open>Adjustments\<close>

text \<open>
  The patch of a \<open>modify\<close> adjustment: the properties that \<open>Object.assign\<close> copies onto
  the task, \<open>None\<close> for a property the patch does not have. A missing patch object copies
  nothing and is the patch with every field \<open>None\<close>.
\<close>

record modifications =
  m_id :: "string option"
  m_name :: "string option"
  m_description :: "string option"
  m_priority :: "number option"
  m_dependencies :: "string list option"
  m_successThreshold :: "number option"
  m_estimatedComplexity :: "number option"
  m_requiresIterativeExecution :: "bool option"
  m_maxIterations :: "number option"
  m_requiredCapabilities :: "string list option"
  m_status :: "status option"
  m_result :: "taskResult option"
  m_completedAt :: "nat option"

text \<open>The task object of an \<open>add\<close> adjustment; every field but name and description may be omitted.\<close>

record newTask =
  n_id :: "string option"
  n_name :: string
  n_description :: string
  n_priority :: "number option"
  n_dependencies :: "string list option"
  n_successThreshold :: "number option"
  n_estimatedComplexity :: "number option"
  n_requiresIterativeExecution :: "bool option"
  n_maxIterations :: "number option"
  n_requiredCapabilities :: "string list option"

text \<open>Adjustments are well-formed records of their variant; any other tag is \<open>Unknown\<close>.\<close>

datatype adjustment =
    Reorder string number
  | Modify string modifications
  | Add newTask
  | Unknown string

definition patch :: "'a option \<Rightarrow> 'a \<Rightarrow> 'a" where
  "patch p old = (case p of None \<Rightarrow> old | Some v \<Rightarrow> v)"

definition patch_opt :: "'a option \<Rightarrow> 'a option \<Rightarrow> 'a option" where
  "patch_opt p old = (case p of None \<Rightarrow> old | Some v \<Rightarrow> Some v)"

definition Object_assign :: "task \<Rightarrow> modifications \<Rightarrow> task" where
  "Object_assign t m =
     t\<lparr> task_id := patch (m_id m) (task_id t),
        task_name := patch (m_name m) (task_name t),
        description := patch (m_description m) (description t),
        priority := patch (m_priority m) (priority t),
        dependencies := patch_opt (m_dependencies m) (dependencies t),
        successThreshold := patch (m_successThreshold m) (successThreshold t),
        estimatedComplexity := patch (m_estimatedComplexity m) (estimatedComplexity t),
        requiresIterativeExecution :=
          patch (m_requiresIterativeExecution m) (requiresIterativeExecution t),
        maxIterations := patch_opt (m_maxIterations m) (maxIterations t),
        requiredCapabilities := patch (m_requiredCapabilities m) (requiredCapabilities t),
        status := patch (m_status m) (status t),
        result := patch_opt (m_result m) (result t),
        completedAt := patch_opt (m_completedAt m) (completedAt t) \<rparr>"

text \<open>The decimal numeral that a template string prints for a clock reading.\<close>

fun digit_char :: "nat \<Rightarrow> char" where
  "digit_char d =
     (if d = 0 then CHR ''0'' else if d = 1 then CHR ''1'' else if d = 2 then CHR ''2''
      else if d = 3 then CHR ''3'' else if d = 4 then CHR ''4'' else if d = 5 then CHR ''5''
      else if d = 6 then CHR ''6'' else if d = 7 then CHR ''7'' else if d = 8 then CHR ''8''
      else CHR ''9'')"

function decimal :: "nat \<Rightarrow> string" where
  "decimal n = (if n < 10 then [digit_char n] else decimal (n div 10) @ [digit_char (n mod 10)])"
  by pat_completeness auto
termination
  by (relation "measure (\<lambda>n. n)") auto

declare decimal.simps [simp del]

text \<open>\<open>adj.task.id || `task_${Date.now()}`\<close>: a missing or empty id is falsy.\<close>

definition newTaskId :: "nat \<Rightarrow> newTask \<Rightarrow> string" where
  "newTaskId now n =
     (case n_id n of
        None \<Rightarrow> ''task_'' @ decimal now
      | Some s \<Rightarrow> if s = [] then ''task_'' @ decimal now else s)"

definition makeTask :: "nat \<Rightarrow> newTask \<Rightarrow> task" where
  "makeTask now n =
     \<lparr> task_id = newTaskId now n,
       task_name = n_name n,
       description = n_description n,
       priority = or_default (n_priority n) 5,
       dependencies = Some (case n_dependencies n of None \<Rightarrow> [] | Some ds \<Rightarrow> ds),
       successThreshold = or_default (n_successThreshold n) 0.8,
       estimatedComplexity = or_default (n_estimatedComplexity n) 5,
       requiresIterativeExecution =
         (case n_requiresIterativeExecution n of None \<Rightarrow> False | Some b \<Rightarrow> b),
       maxIterations = Some (or_default (n_maxIterations n) 10),
       requiredCapabilities = (case n_requiredCapabilities n of None \<Rightarrow> [] | Some cs \<Rightarrow> cs),
       status = pending,
       result = None,
       completedAt = None \<rparr>"

text \<open>One round of the \<open>forEach\<close> body; \<open>now\<close> is what \<open>Date.now()\<close> reads during it.\<close>

fun applyAdjustment :: "nat \<Rightarrow> adjustment \<Rightarrow> checklist \<Rightarrow> checklist" where
  "applyAdjustment now (Reorder taskId newPriority) c =
     (case map_of (tasks c) taskId of
        None \<Rightarrow> c
      | Some t \<Rightarrow> c\<lparr>tasks := AList.update taskId (t\<lparr>priority := newPriority\<rparr>) (tasks c)\<rparr>)"
| "applyAdjustment now (Modify taskId m) c =
     (case map_of (tasks c) taskId of
        None \<Rightarrow> c
      | Some t \<Rightarrow> c\<lparr>tasks := AList.update taskId (Object_assign t m) (tasks c)\<rparr>)"
| "applyAdjustment now (Add n) c =
     c\<lparr>tasks := AList.update (newTaskId now n) (makeTask now n) (tasks c)\<rparr>"
| "applyAdjustment now (Unknown tag) c = c"

text \<open>
  \<open>applyAdjustments clock i adjs c\<close>: the \<open>forEach\<close> over \<open>adjs\<close>, where \<open>clock j\<close> is the
  reading of \<open>Date.now()\<close> during the round of index \<open>j\<close> and \<open>i\<close> is the index of the
  first adjustment of \<open>adjs\<close> (0 for the whole call).
\<close>

fun applyAdjustments :: "(nat \<Rightarrow> nat) \<Rightarrow> nat \<Rightarrow> adjustment list \<Rightarrow> checklist \<Rightarrow> checklist" where
  "applyAdjustments clock i [] c = c"
| "applyAdjustments clock i (adj # adjs) c =
     applyAdjustments clock (Suc i) adjs (applyAdjustment (clock i) adj c)"

record progressSummary =
  total :: nat
  ps_completed :: nat
  ps_failed :: nat
  ps_pending :: nat
  ps_inProgress :: nat
  completionRate :: number

definition getProgressSummary :: "checklist \<Rightarrow> progressSummary" where
  "getProgressSummary c =
     (let all = getAllTasks c;
          completed' = getCompletedTasks c;
          failed' = getFailedTasks c;
          pending' = getPendingTasks c;
          inProgress = getInProgressTasks c
      in \<lparr> total = length all,
           ps_completed = length completed',
           ps_failed = length failed',
           ps_pending = length pending',
           ps_inProgress = length inProgress,
           completionRate =
             (if length all > 0 then real (length completed') / real (length all) else 0) \<rparr>)"

section \<open>Collaborators (types.ts: Tool, LLMInterface; tool-registry.ts)\<close>

text \<open>
  Tool inputs and the run context are opaque JSON texts. A call of a collaborator either
  returns (\<open>Inr\<close>) or throws (\<open>Inl\<close> with the message of the thrown value). Each method of
  the language model is a function of the data that its prompt is built from.
\<close>

type_synonym toolInput = string
type_synonym runContext = string

record tool =
  tool_id :: string
  tool_name :: string
  tool_description :: string
  capabilities :: "string list"
  execute :: "toolInput \<Rightarrow> string + toolOutput"

record analysis =
  a_successCriteria :: "string list option"
  a_constraints :: "string list option"
  a_expectedOutcomes :: "string list option"
  a_challenges :: "string list option"

record ledgerEntry =
  le_task :: task
  le_result :: taskResult
  le_timestamp :: nat

text \<open>
  The orchestrator is written against the interface \<open>LLMInterface\<close>, the record below, and
  what is proved of it holds for every implementation. The one that the program ships is
  \<open>AnthropicLLM\<close>; its \<open>evaluate\<close>, which computes the confidence, follows the record.
\<close>

record llm =
  llm_analyze :: "string \<Rightarrow> runContext \<Rightarrow> string + analysis"
  llm_decompose :: "goalDefinition \<Rightarrow> string + task list"
  llm_selectTools :: "task \<Rightarrow> tool list \<Rightarrow> string + string list"
  llm_generateToolInput :: "tool \<Rightarrow> task \<Rightarrow> runContext \<Rightarrow> toolResult list \<Rightarrow> string + toolInput"
  llm_evaluate :: "task \<Rightarrow> toolResult list \<Rightarrow> string + jsNumber"
  llm_strategize :: "ledgerEntry list \<Rightarrow> string + adjustment list option"
  llm_assess :: "goalDefinition \<Rightarrow> task list \<Rightarrow> number option \<Rightarrow> string + bool"

subsection \<open>The shipped model adapter (cli.ts, class AnthropicLLM): \<open>evaluate\<close>\<close>

text \<open>
  The command line builds the orchestrator with an \<open>AnthropicLLM\<close>. Its \<open>evaluate\<close> sends the
  prompt to the remote model (\<open>makeRequest\<close>, outside the \<open>try\<close>) and parses the answer inside
  a \<open>try\<close>. What \<open>makeRequest\<close> and \<open>JSON.parse\<close> give is one of: the request failed, with the
  printed error; the text is no JSON, or is the JSON \<open>null\<close> (the member read then raises),
  both of which land in the \<open>catch\<close>; or the text parsed and its \<open>confidence\<close> member is as
  follows.
\<close>

text \<open>
  The \<open>confidence\<close> member by what \<open>||\<close>, \<open>Math.min\<close> and \<open>Math.max\<close> make of it: absent or
  \<open>null\<close>; a finite number, or another value that they convert to that number (\<open>true\<close>, the
  text \<open>0.9\<close>); a number literal beyond the double range, which \<open>JSON.parse\<close> reads as an
  infinity of the given sign; a value that they convert to \<open>NaN\<close>, such as the text \<open>high\<close>.
\<close>

datatype confidenceMember = Absent | Numeric number | Overflow bool | NonNumeric

datatype evaluateAnswer = RequestFailed string | NotParsed | Parsed confidenceMember

text \<open>\<open>result.confidence || 0\<close>: an absent member and the number 0 are falsy.\<close>

fun orZero :: "confidenceMember \<Rightarrow> jsNumber" where
  "orZero Absent = Num 0"
| "orZero (Numeric x) = (if x = 0 then Num 0 else Num x)"
| "orZero (Overflow positive) = (if positive then PlusInfinity else MinusInfinity)"
| "orZero NonNumeric = NaN"

text \<open>
  \<open>AnthropicLLM.evaluate\<close> over the remote model \<open>remote\<close>, which like every method of the
  model answers as a function of the data in the prompt.
\<close>

definition AnthropicLLM_evaluate ::
  "(task \<Rightarrow> toolResult list \<Rightarrow> evaluateAnswer) \<Rightarrow> task \<Rightarrow> toolResult list \<Rightarrow> string + jsNumber" where
  "AnthropicLLM_evaluate remote t rs =
     (case remote t rs of
        RequestFailed e \<Rightarrow> Inl (''LLM request failed: '' @ e)
      | NotParsed \<Rightarrow> Inr (Num 0)
      | Parsed member \<Rightarrow> Inr (Math_max 0 (Math_min 1 (orZero member))))"

section \<open>Orchestrator (class AIAgentOrchestrator)\<close>

text \<open>
  The fields of the orchestrator a run reads, and \<open>dateNow\<close>, the clock of the
  environment: \<open>dateNow k\<close> is what the \<open>k\<close>-th reading of \<open>Date.now()\<close> returns.
\<close>

record orchestrator =
  o_maxIterations :: number
  confidenceThreshold :: number
  toolRegistry :: "(string \<times> tool) list"
  llm :: llm
  dateNow :: "nat \<Rightarrow> nat"

record historyEntry =
  h_tool :: string
  h_task :: string
  h_input :: toolInput
  h_output :: toolOutput
  h_duration :: int
  h_timestamp :: nat

text \<open>
  The calls made to the collaborators, in the order they are made; a call of \<open>strategize\<close>
  with the ledger entries that its prompt prints, a call of \<open>execute\<close> with the id of the tool.
\<close>

datatype event =
    Analyze | Decompose | SelectTools | GenerateToolInput | Evaluate | Assess
  | Strategize "ledgerEntry list"
  | Execute string

text \<open>
  What a run changes outside the checklist: the execution history of the orchestrator,
  the calls issued so far, and the number of clock readings taken.
\<close>

record world =
  executionHistory :: "historyEntry list"
  trace :: "event list"
  ticks :: nat

definition Date_now :: "orchestrator \<Rightarrow> world \<Rightarrow> nat \<times> world" where
  "Date_now orch w = (dateNow orch (ticks w), w\<lparr>ticks := Suc (ticks w)\<rparr>)"

definition issue :: "event \<Rightarrow> world \<Rightarrow> world" where
  "issue ev w = w\<lparr>trace := trace w @ [ev]\<rparr>"

definition getTool :: "(string \<times> tool) list \<Rightarrow> string \<Rightarrow> tool option" where
  "getTool registry toolId = map_of registry toolId"

definition getAvailableTools :: "(string \<times> tool) list \<Rightarrow> tool list" where
  "getAvailableTools registry = map snd registry"

definition selectTools :: "orchestrator \<Rightarrow> task \<Rightarrow> world \<Rightarrow> (string + tool list) \<times> world" where
  "selectTools orch t w =
     (let availableTools = getAvailableTools (toolRegistry orch) in
      case (llm_selectTools (llm orch) t availableTools, issue SelectTools w) of
        (Inl e, w1) \<Rightarrow> (Inl e, w1)
      | (Inr selection, w1) \<Rightarrow>
          (Inr (List.map_filter (getTool (toolRegistry orch)) selection), w1))"

definition prepareToolInput ::
  "orchestrator \<Rightarrow> tool \<Rightarrow> task \<Rightarrow> runContext \<Rightarrow> toolResult list \<Rightarrow> world
     \<Rightarrow> (string + toolInput) \<times> world" where
  "prepareToolInput orch aTool t ctx previousResults w =
     (llm_generateToolInput (llm orch) aTool t ctx previousResults, issue GenerateToolInput w)"

text \<open>The message of the TypeError that reading \<open>.confidence\<close> of no object raises.\<close>

definition typeErrorMessage :: "toolOutput \<Rightarrow> string" where
  "typeErrorMessage out =
     (case out of
        OutNull \<Rightarrow> ''Cannot read properties of null (reading 'confidence')''
      | _ \<Rightarrow> ''Cannot read properties of undefined (reading 'confidence')'')"

text \<open>The \<open>try\<close> block of \<open>callTool\<close>.\<close>

definition callTool_try ::
  "orchestrator \<Rightarrow> tool \<Rightarrow> task \<Rightarrow> runContext \<Rightarrow> toolResult list \<Rightarrow> world
     \<Rightarrow> (string + toolResult) \<times> world" where
  "callTool_try orch aTool t ctx previousResults w =
     (case prepareToolInput orch aTool t ctx previousResults w of
        (Inl e, w1) \<Rightarrow> (Inl e, w1)
      | (Inr toolInput, w1) \<Rightarrow>
          (case Date_now orch w1 of (startTime, w2) \<Rightarrow>
           (case (execute aTool toolInput, issue (Execute (tool_id aTool)) w2) of
              (Inl e, w3) \<Rightarrow> (Inl e, w3)
            | (Inr res, w3) \<Rightarrow>
                (case Date_now orch w3 of (endTime, w4) \<Rightarrow>
                 (case Date_now orch w4 of (timestamp, w5) \<Rightarrow>
                  (let duration = int endTime - int startTime;
                       w6 = w5\<lparr>executionHistory := executionHistory w5 @
                              [\<lparr> h_tool = tool_name aTool, h_task = task_id t, h_input = toolInput,
                                 h_output = res, h_duration = duration,
                                 h_timestamp = timestamp \<rparr>]\<rparr>
                   in case res of
                        Output conf payload \<Rightarrow>
                          (Inr \<lparr> tool_success = True, tool = tool_name aTool, tool_output = res,
                                 tool_duration = duration,
                                 tool_confidence = or_default conf 1,
                                 tool_error = None \<rparr>, w6)
                      | _ \<Rightarrow> (Inl (typeErrorMessage res), w6)))))))"

text \<open>\<open>callTool\<close>: the \<open>try\<close> block under its \<open>catch\<close>.\<close>

definition callTool ::
  "orchestrator \<Rightarrow> tool \<Rightarrow> task \<Rightarrow> runContext \<Rightarrow> toolResult list \<Rightarrow> world
     \<Rightarrow> (string + toolResult) \<times> world" where
  "callTool orch aTool t ctx previousResults w =
     (case callTool_try orch aTool t ctx previousResults w of
        (Inr r, w1) \<Rightarrow> (Inr r, w1)
      | (Inl e, w1) \<Rightarrow>
          (Inr \<lparr> tool_success = False, tool = tool_name aTool, tool_output = OutNull,
                 tool_duration = 0, tool_confidence = 0, tool_error = Some e \<rparr>, w1))"

definition evaluateProgress ::
  "orchestrator \<Rightarrow> task \<Rightarrow> toolResult list \<Rightarrow> world \<Rightarrow> (string + jsNumber) \<times> world" where
  "evaluateProgress orch t rs w = (llm_evaluate (llm orch) t rs, issue Evaluate w)"

text \<open>
  The inner \<open>for (const tool of tools)\<close> loop of \<open>executeIterativeTask\<close>, from the tools
  still to visit and the current \<open>results\<close> and \<open>confidence\<close>; it returns their new values.
\<close>

fun toolRound ::
  "orchestrator \<Rightarrow> task \<Rightarrow> runContext \<Rightarrow> tool list \<Rightarrow> toolResult list \<Rightarrow> jsNumber \<Rightarrow> world
     \<Rightarrow> (string + toolResult list \<times> jsNumber) \<times> world" where
  "toolRound orch t ctx [] rs conf w = (Inr (rs, conf), w)"
| "toolRound orch t ctx (aTool # moreTools) rs conf w =
     (case callTool orch aTool t ctx rs w of
        (Inl e, w1) \<Rightarrow> (Inl e, w1)
      | (Inr r, w1) \<Rightarrow>
          (case evaluateProgress orch t (rs @ [r]) w1 of
             (Inl e, w2) \<Rightarrow> (Inl e, w2)
           | (Inr conf', w2) \<Rightarrow>
               if js_atLeast conf' (successThreshold t) then (Inr (rs @ [r], conf'), w2)
               else toolRound orch t ctx moreTools (rs @ [r]) conf' w2))"

text \<open>The outer \<open>while\<close> loop, from the current \<open>results\<close>, \<open>confidence\<close> and \<open>iterations\<close>.\<close>

function iterativeLoop ::
  "orchestrator \<Rightarrow> task \<Rightarrow> tool list \<Rightarrow> runContext \<Rightarrow> number \<Rightarrow> toolResult list \<Rightarrow> jsNumber \<Rightarrow> nat
     \<Rightarrow> world \<Rightarrow> (string + toolResult list \<times> jsNumber \<times> nat) \<times> world" where
  "iterativeLoop orch t tools ctx maxTaskIterations rs conf its w =
     (if js_less conf (successThreshold t) \<and> real its < maxTaskIterations then
        (case toolRound orch t ctx tools rs conf w of
           (Inl e, w1) \<Rightarrow> (Inl e, w1)
         | (Inr (rs', conf'), w1) \<Rightarrow>
             iterativeLoop orch t tools ctx maxTaskIterations rs' conf' (Suc its) w1)
      else (Inr (rs, conf, its), w))"
  by pat_completeness auto
termination
proof (relation "measure (\<lambda>(orch, t, tools, ctx, m, rs, conf, its, w). nat \<lceil>m\<rceil> - its)")
  show "wf (measure (\<lambda>(orch, t, tools, ctx, m, rs, conf, its, w). nat \<lceil>m\<rceil> - its))"
    by simp
next
  fix orch t tools ctx and m :: number and rs :: "toolResult list" and conf :: jsNumber
    and its :: nat and w :: world and x xa y xb ya
  assume "js_less conf (successThreshold t) \<and> real its < m"
  then have "its < nat \<lceil>m\<rceil>" by linarith
  then show "((orch, t, tools, ctx, m, xb, ya, Suc its, y), (orch, t, tools, ctx, m, rs, conf, its, w))
      \<in> measure (\<lambda>(orch, t, tools, ctx, m, rs, conf, its, w). nat \<lceil>m\<rceil> - its)"
    by simp
qed

declare iterativeLoop.simps [simp del]

definition executeIterativeTask ::
  "orchestrator \<Rightarrow> task \<Rightarrow> tool list \<Rightarrow> runContext \<Rightarrow> world \<Rightarrow> (string + taskResult) \<times> world" where
  "executeIterativeTask orch t tools ctx w =
     (let maxTaskIterations = or_default (maxIterations t) 10 in
      case iterativeLoop orch t tools ctx maxTaskIterations [] (Num 0) 0 w of
        (Inl e, w1) \<Rightarrow> (Inl e, w1)
      | (Inr (rs, conf, its), w1) \<Rightarrow>
          (Inr \<lparr> success = js_atLeast conf (successThreshold t), confidence = conf,
                 iterations = its,
                 results = rs, duration = None, error = None \<rparr>, w1))"

definition executeSingleTask ::
  "orchestrator \<Rightarrow> task \<Rightarrow> tool list \<Rightarrow> runContext \<Rightarrow> world \<Rightarrow> (string + taskResult) \<times> world" where
  "executeSingleTask orch t tools ctx w =
     (case tools of
        [] \<Rightarrow>
          (Inr \<lparr> success = False, confidence = Num 0, iterations = 1, results = [],
                 duration = None, error = Some ''No suitable tools found for this task'' \<rparr>, w)
      | aTool # _ \<Rightarrow>
          (case callTool orch aTool t ctx [] w of
             (Inl e, w1) \<Rightarrow> (Inl e, w1)
           | (Inr r, w1) \<Rightarrow>
               (Inr \<lparr> success = tool_success r,
                      confidence = Num (or_default (Some (tool_confidence r)) 1),
                      iterations = 1, results = [r], duration = None, error = None \<rparr>, w1)))"

definition executeTask ::
  "orchestrator \<Rightarrow> task \<Rightarrow> runContext \<Rightarrow> world \<Rightarrow> (string + taskResult) \<times> world" where
  "executeTask orch t ctx w =
     (case selectTools orch t w of
        (Inl e, w1) \<Rightarrow> (Inl e, w1)
      | (Inr selectedTools, w1) \<Rightarrow>
          if requiresIterativeExecution t then executeIterativeTask orch t selectedTools ctx w1
          else executeSingleTask orch t selectedTools ctx w1)"

subsection \<open>The run: \<open>achieveGoal\<close>\<close>

datatype runStatus = run_in_progress | run_completed | run_failed | no_viable_tasks

record executionResult =
  goal :: string
  startTime :: nat
  endTime :: "nat option"
  er_duration :: "int option"
  er_iterations :: nat
  tasksCompleted :: "ledgerEntry list"
  er_status :: runStatus

text \<open>
  The array that \<open>getAvailableTasks\<close> returns holds the task objects of the checklist
  themselves, not copies: the orchestrator reads \<open>task.id\<close> from them while the checklist
  mutates them. An element of the batch is therefore kept with the key under which the
  checklist stores it, and \<open>deref\<close> reads the object again through that key.
\<close>

definition availableEntries :: "checklist \<Rightarrow> (string \<times> task) list" where
  "availableEntries c = filter (\<lambda>e. isAvailable c (snd e)) (tasks c)"

definition deref :: "checklist \<Rightarrow> string \<times> task \<Rightarrow> task" where
  "deref c e = (case map_of (tasks c) (fst e) of Some t \<Rightarrow> t | None \<Rightarrow> snd e)"

definition executeTaskWithProgress ::
  "orchestrator \<Rightarrow> string \<times> task \<Rightarrow> runContext \<Rightarrow> checklist \<Rightarrow> world
     \<Rightarrow> (string + taskResult) \<times> checklist \<times> world" where
  "executeTaskWithProgress orch e ctx c w =
     (let c1 = setTaskInProgress (task_id (deref c e)) c in
      case executeTask orch (deref c1 e) ctx w of
        (Inr res, w1) \<Rightarrow> (Inr res, c1, w1)
      | (Inl err, w1) \<Rightarrow>
          (Inr \<lparr> success = False, confidence = Num 0, iterations = 1, results = [],
                 duration = None, error = Some err \<rparr>, c1, w1))"

text \<open>
  \<open>Promise.all\<close> over the batch. The members run one after the other here; under the
  concurrency limit of the source they interleave at their awaits, which permutes the
  calls in the trace but nothing a member reads: a member only marks its own task and
  reads its own task object. The join rejects when a member rejects.
\<close>

fun runBatch ::
  "orchestrator \<Rightarrow> (string \<times> task) list \<Rightarrow> runContext \<Rightarrow> checklist \<Rightarrow> world
     \<Rightarrow> (string + taskResult list) \<times> checklist \<times> world" where
  "runBatch orch [] ctx c w = (Inr [], c, w)"
| "runBatch orch (e # es) ctx c w =
     (case executeTaskWithProgress orch e ctx c w of
        (res, c1, w1) \<Rightarrow>
          (case runBatch orch es ctx c1 w1 of
             (rest, c2, w2) \<Rightarrow>
               (case res of
                  Inl err \<Rightarrow> (Inl err, c2, w2)
                | Inr r \<Rightarrow>
                    (case rest of
                       Inl err \<Rightarrow> (Inl err, c2, w2)
                     | Inr rs \<Rightarrow> (Inr (r # rs), c2, w2)))))"

text \<open>
  The \<open>for\<close> loop that folds the results of the batch into the checklist and the ledger;
  the two arrays have the same length. The ledger keeps the task as it is at the push.
\<close>

fun recordResults ::
  "orchestrator \<Rightarrow> (string \<times> task) list \<Rightarrow> taskResult list \<Rightarrow> checklist \<Rightarrow> executionResult
     \<Rightarrow> world \<Rightarrow> checklist \<times> executionResult \<times> world" where
  "recordResults orch (e # es) (res # rest) c er w =
     (case Date_now orch w of (now1, w1) \<Rightarrow>
      (let c1 = updateTaskStatus now1 (task_id (deref c e)) res c in
       case Date_now orch w1 of (now2, w2) \<Rightarrow>
         recordResults orch es rest c1
           (er\<lparr>tasksCompleted := tasksCompleted er @
                 [\<lparr> le_task = deref c1 e, le_result = res, le_timestamp = now2 \<rparr>]\<rparr>) w2))"
| "recordResults orch es rest c er w = (c, er, w)"

text \<open>\<open>xs.slice(-n)\<close>: the last \<open>n\<close> elements, all of them when there are fewer.\<close>

definition slice_last :: "nat \<Rightarrow> 'a list \<Rightarrow> 'a list" where
  "slice_last n xs = drop (length xs - n) xs"

text \<open>The quotient is \<open>NaN\<close> (here \<open>None\<close>) on an empty array, and \<open>NaN > 0.6\<close> is false.\<close>

definition failureRate :: "ledgerEntry list \<Rightarrow> number option" where
  "failureRate recentTasks =
     (if length recentTasks = 0 then None
      else Some (real (length (filter (\<lambda>t. \<not> success (le_result t)) recentTasks))
                 / real (length recentTasks)))"

definition highFailureRate :: "ledgerEntry list \<Rightarrow> bool" where
  "highFailureRate recentTasks =
     (case failureRate recentTasks of None \<Rightarrow> False | Some r \<Rightarrow> r > 0.6)"

definition reflectAndAdapt ::
  "orchestrator \<Rightarrow> checklist \<Rightarrow> executionResult \<Rightarrow> world \<Rightarrow> (string + unit) \<times> checklist \<times> world" where
  "reflectAndAdapt orch c er w =
     (let recentTasks = slice_last 5 (tasksCompleted er) in
      if highFailureRate recentTasks then
        (case (llm_strategize (llm orch) recentTasks, issue (Strategize recentTasks) w) of
           (Inl e, w1) \<Rightarrow> (Inl e, c, w1)
         | (Inr answer, w1) \<Rightarrow>
             (let adjustments = (case answer of None \<Rightarrow> [] | Some adjs \<Rightarrow> adjs) in
              (Inr (),
               applyAdjustments (\<lambda>i. dateNow orch (ticks w1 + i)) 0 adjustments c,
               w1\<lparr>ticks := ticks w1 + length adjustments\<rparr>)))
      else (Inr (), c, w))"

definition isGoalAchieved ::
  "orchestrator \<Rightarrow> goalDefinition \<Rightarrow> checklist \<Rightarrow> world \<Rightarrow> (string + bool) \<times> world" where
  "isGoalAchieved orch gd c w =
     (let completedTasks = getCompletedTasks c;
          totalTasks = length (getAllTasks c);
          completionRate =
            (if totalTasks = 0 then None
             else Some (real (length completedTasks) / real totalTasks))
      in (llm_assess (llm orch) gd completedTasks completionRate, issue Assess w))"

text \<open>One round of the main \<open>while\<close> loop: it ends the loop (\<open>Break\<close>) or goes on.\<close>

datatype loopControl = Break | Continue

definition iteration ::
  "orchestrator \<Rightarrow> runContext \<Rightarrow> goalDefinition \<Rightarrow> checklist \<Rightarrow> executionResult \<Rightarrow> world
     \<Rightarrow> (string + loopControl \<times> checklist \<times> executionResult) \<times> world" where
  "iteration orch ctx gd c er w =
     (case isGoalAchieved orch gd c w of
        (Inl e, w1) \<Rightarrow> (Inl e, w1)
      | (Inr achieved, w1) \<Rightarrow>
          if achieved then (Inr (Break, c, er\<lparr>er_status := run_completed\<rparr>), w1)
          else
            (let availableTasks = availableEntries c in
             if length availableTasks = 0
             then (Inr (Break, c, er\<lparr>er_status := no_viable_tasks\<rparr>), w1)
             else
               (let tasksToExecute = take 3 availableTasks in
                case runBatch orch tasksToExecute ctx c w1 of
                  (Inl e, c2, w2) \<Rightarrow> (Inl e, w2)
                | (Inr taskResults, c2, w2) \<Rightarrow>
                    (case recordResults orch tasksToExecute taskResults c2 er w2 of
                       (c3, er3, w3) \<Rightarrow>
                         (case reflectAndAdapt orch c3 er3 w3 of
                            (Inl e, c4, w4) \<Rightarrow> (Inl e, w4)
                          | (Inr u, c4, w4) \<Rightarrow>
                              (Inr (Continue, c4,
                                    er3\<lparr>er_iterations := Suc (er_iterations er3)\<rparr>), w4))))))"

function mainLoop ::
  "orchestrator \<Rightarrow> runContext \<Rightarrow> goalDefinition \<Rightarrow> checklist \<Rightarrow> executionResult \<Rightarrow> world
     \<Rightarrow> (string + checklist \<times> executionResult) \<times> world" where
  "mainLoop orch ctx gd c er w =
     (if real (er_iterations er) < o_maxIterations orch then
        (case iteration orch ctx gd c er w of
           (Inl e, w1) \<Rightarrow> (Inl e, w1)
         | (Inr (Break, c1, er1), w1) \<Rightarrow> (Inr (c1, er1), w1)
         | (Inr (Continue, c1, er1), w1) \<Rightarrow> mainLoop orch ctx gd c1 er1 w1)
      else (Inr (c, er), w))"
  by pat_completeness auto
termination
proof (relation "measure (\<lambda>(orch, ctx, gd, c, er, w). nat \<lceil>o_maxIterations orch\<rceil> - er_iterations er)")
  show "wf (measure (\<lambda>(orch, ctx, gd, c, er, w). nat \<lceil>o_maxIterations orch\<rceil> - er_iterations er))"
    by simp
next
  fix orch :: orchestrator and ctx :: runContext and gd :: goalDefinition and c :: checklist
    and er :: executionResult and w :: world and x y b xa ya xb yb
  assume bound: "real (er_iterations er) < o_maxIterations orch"
    and it: "(x, y) = iteration orch ctx gd c er w" "x = Inr b" "(xa, ya) = b"
      "xa = Continue" "(xb, yb) = ya"
  have keep: "recordResults orch es rs c0 er0 w0 = (c', er', w') \<Longrightarrow>
      er_iterations er' = er_iterations er0" for es rs c0 er0 w0 c' er' w'
    by (induction orch es rs c0 er0 w0 rule: recordResults.induct)
      (auto simp: Let_def split: prod.splits)
  from it have "iteration orch ctx gd c er w = (Inr (Continue, xb, yb), y)" by simp
  then have "er_iterations yb = Suc (er_iterations er)"
    unfolding iteration_def Let_def
    by (auto split: prod.splits sum.splits if_splits dest: keep)
  moreover from bound have "er_iterations er < nat \<lceil>o_maxIterations orch\<rceil>" by linarith
  ultimately show "((orch, ctx, gd, xb, yb, y), (orch, ctx, gd, c, er, w))
      \<in> measure (\<lambda>(orch, ctx, gd, c, er, w). nat \<lceil>o_maxIterations orch\<rceil> - er_iterations er)"
    by simp
qed

declare mainLoop.simps [simp del]

definition defineGoal ::
  "orchestrator \<Rightarrow> string \<Rightarrow> runContext \<Rightarrow> world \<Rightarrow> (string + goalDefinition) \<times> world" where
  "defineGoal orch g ctx w =
     (case (llm_analyze (llm orch) g ctx, issue Analyze w) of
        (Inl e, w1) \<Rightarrow> (Inl e, w1)
      | (Inr d, w1) \<Rightarrow>
          (Inr \<lparr> originalGoal = g,
                 successCriteria = (case a_successCriteria d of None \<Rightarrow> [] | Some xs \<Rightarrow> xs),
                 constraints = (case a_constraints d of None \<Rightarrow> [] | Some xs \<Rightarrow> xs),
                 expectedOutcomes = (case a_expectedOutcomes d of None \<Rightarrow> [] | Some xs \<Rightarrow> xs),
                 challenges = (case a_challenges d of None \<Rightarrow> [] | Some xs \<Rightarrow> xs) \<rparr>, w1))"

definition createChecklist ::
  "orchestrator \<Rightarrow> goalDefinition \<Rightarrow> world \<Rightarrow> (string + checklist) \<times> world" where
  "createChecklist orch gd w =
     (case (llm_decompose (llm orch) gd, issue Decompose w) of
        (Inl e, w1) \<Rightarrow> (Inl e, w1)
      | (Inr ts, w1) \<Rightarrow> (Inr (Checklist ts gd), w1))"

text \<open>\<open>generateReport\<close> prints the report and returns the result unchanged.\<close>

definition generateReport :: "executionResult \<Rightarrow> checklist \<Rightarrow> executionResult" where
  "generateReport er c = er"

definition achieveGoal ::
  "orchestrator \<Rightarrow> string \<Rightarrow> runContext \<Rightarrow> world \<Rightarrow> (string + executionResult) \<times> world" where
  "achieveGoal orch g ctx w =
     (case defineGoal orch g ctx w of
        (Inl e, w1) \<Rightarrow> (Inl e, w1)
      | (Inr gd, w1) \<Rightarrow>
          (case createChecklist orch gd w1 of
             (Inl e, w2) \<Rightarrow> (Inl e, w2)
           | (Inr c, w2) \<Rightarrow>
               (case Date_now orch w2 of (start, w3) \<Rightarrow>
                (case mainLoop orch ctx gd c
                        \<lparr> goal = g, startTime = start, endTime = None, er_duration = None,
                          er_iterations = 0, tasksCompleted = [],
                          er_status = run_in_progress \<rparr> w3 of
                   (Inl e, w4) \<Rightarrow> (Inl e, w4)
                 | (Inr (c', er), w4) \<Rightarrow>
                     (case Date_now orch w4 of (finish, w5) \<Rightarrow>
                        (Inr (generateReport
                                (er\<lparr>endTime := Some finish,
                                    er_duration := Some (int finish - int start)\<rparr>) c'),
                         w5))))))"

section \<open>Notions used in the statements\<close>

text \<open>The dependency ids of a task, none when the field is absent.\<close>

definition deps_of :: "task \<Rightarrow> string list" where
  "deps_of t = (case dependencies t of None \<Rightarrow> [] | Some ds \<Rightarrow> ds)"

text \<open>\<open>(k, d) \<in> dependsOn c\<close>: the task stored under \<open>k\<close> names \<open>d\<close> as a dependency.\<close>

definition dependsOn :: "checklist \<Rightarrow> (string \<times> string) set" where
  "dependsOn c = {(k, d). \<exists>t. getTask c k = Some t \<and> d \<in> set (deps_of t)}"

text \<open>Every completed task has only completed dependencies.\<close>

definition completedInOrder :: "checklist \<Rightarrow> bool" where
  "completedInOrder c =
     (\<forall>k t. getTask c k = Some t \<and> status t = completed \<longrightarrow> depsCompleted c (deps_of t))"

text \<open>
  An adjustment, applied at clock reading \<open>now\<close>, can write the status of the task stored
  under \<open>k\<close>: a \<open>modify\<close> of \<open>k\<close> whose patch has a status, or an \<open>add\<close> stored under \<open>k\<close>.
\<close>

fun rewritesStatus :: "nat \<Rightarrow> string \<Rightarrow> adjustment \<Rightarrow> bool" where
  "rewritesStatus now k (Modify taskId m) = (taskId = k \<and> m_status m \<noteq> None)"
| "rewritesStatus now k (Add n) = (newTaskId now n = k)"
| "rewritesStatus now k (Reorder taskId p) = False"
| "rewritesStatus now k (Unknown tag) = False"

text \<open>No adjustment of the list does, \<open>i\<close> being the index of the first one.\<close>

fun statusUntouched :: "(nat \<Rightarrow> nat) \<Rightarrow> nat \<Rightarrow> string \<Rightarrow> adjustment list \<Rightarrow> bool" where
  "statusUntouched clock i k [] = True"
| "statusUntouched clock i k (adj # adjs) =
     (\<not> rewritesStatus (clock i) k adj \<and> statusUntouched clock (Suc i) k adjs)"

text \<open>Every task is stored under its own id, and no key occurs twice.\<close>

definition wellKeyed :: "checklist \<Rightarrow> bool" where
  "wellKeyed c = (distinct (map fst (tasks c)) \<and> list_all (\<lambda>e. task_id (snd e) = fst e) (tasks c))"

text \<open>The ids of the tools whose \<open>execute\<close> has run, in order.\<close>

definition executions :: "world \<Rightarrow> string list" where
  "executions w = List.map_filter (\<lambda>ev. case ev of Execute i \<Rightarrow> Some i | _ \<Rightarrow> None) (trace w)"

text \<open>The arguments of the calls of \<open>strategize\<close> made so far, in order.\<close>

definition strategizeArgs :: "world \<Rightarrow> ledgerEntry list list" where
  "strategizeArgs w =
     List.map_filter (\<lambda>ev. case ev of Strategize es \<Rightarrow> Some es | _ \<Rightarrow> None) (trace w)"

text \<open>The tool result that the \<open>catch\<close> of \<open>callTool\<close> builds from a message.\<close>

definition failedToolResult :: "tool \<Rightarrow> string \<Rightarrow> toolResult" where
  "failedToolResult aTool e =
     \<lparr> tool_success = False, tool = tool_name aTool, tool_output = OutNull,
       tool_duration = 0, tool_confidence = 0, tool_error = Some e \<rparr>"

text \<open>
  The invariant of the outer loop of \<open>executeIterativeTask\<close>: the confidence is 0 with no
  result yet and the value of the evaluation of all results otherwise, and the evaluation
  of every shorter non-empty prefix of the results did not reach the threshold.
\<close>

definition evaluated :: "orchestrator \<Rightarrow> task \<Rightarrow> toolResult list \<Rightarrow> jsNumber \<Rightarrow> bool" where
  "evaluated orch t rs conf =
     ((rs = [] \<and> conf = Num 0 \<or> rs \<noteq> [] \<and> llm_evaluate (llm orch) t rs = Inr conf)
      \<and> (\<forall>k. 0 < k \<and> k < length rs \<longrightarrow>
            (\<exists>v. llm_evaluate (llm orch) t (take k rs) = Inr v
                 \<and> \<not> js_atLeast v (successThreshold t))))"

section \<open>Example data\<close>

text \<open>A task as the model decomposes one: the given id, dependencies and status.\<close>

definition demo_task :: "string \<Rightarrow> string list option \<Rightarrow> status \<Rightarrow> task" where
  "demo_task i deps s =
     \<lparr> task_id = i, task_name = i, description = [], priority = 5, dependencies = deps,
       successThreshold = 0.8, estimatedComplexity = 5, requiresIterativeExecution = False,
       maxIterations = None, requiredCapabilities = [], status = s, result = None,
       completedAt = None \<rparr>"

definition demo_goal :: goalDefinition where
  "demo_goal = \<lparr> originalGoal = ''g'', successCriteria = [], constraints = [],
                 expectedOutcomes = [], challenges = [] \<rparr>"

text \<open>The empty patch, and an \<open>add\<close> that gives a name only.\<close>

definition noModifications :: modifications where
  "noModifications =
     \<lparr> m_id = None, m_name = None, m_description = None, m_priority = None,
       m_dependencies = None, m_successThreshold = None, m_estimatedComplexity = None,
       m_requiresIterativeExecution = None, m_maxIterations = None,
       m_requiredCapabilities = None, m_status = None, m_result = None,
       m_completedAt = None \<rparr>"

definition bare_task :: "string \<Rightarrow> newTask" where
  "bare_task nm =
     \<lparr> n_id = None, n_name = nm, n_description = [], n_priority = None, n_dependencies = None,
       n_successThreshold = None, n_estimatedComplexity = None,
       n_requiresIterativeExecution = None, n_maxIterations = None,
       n_requiredCapabilities = None \<rparr>"

text \<open>Checklists: the input of the first carries statuses that the constructor resets.\<close>

definition two_tasks :: checklist where
  "two_tasks = Checklist [demo_task ''a'' None completed, demo_task ''b'' (Some [''a'']) failed] demo_goal"

definition empty_checklist :: checklist where
  "empty_checklist = Checklist [] demo_goal"


definition two_ready :: checklist where
  "two_ready = Checklist [demo_task ''t1'' None pending, demo_task ''t2'' None pending] demo_goal"

text \<open>Two tasks that depend on each other, and the same after \<open>modify(B, {status: completed})\<close>.\<close>

definition cycle_start :: checklist where
  "cycle_start =
     Checklist [demo_task ''A'' (Some [''B'']) pending, demo_task ''B'' (Some [''A'']) pending]
       demo_goal"

definition cycle_adjusted :: checklist where
  "cycle_adjusted =
     applyAdjustments (\<lambda>i. 0) 0 [Modify ''B'' (noModifications\<lparr>m_status := Some completed\<rparr>)]
       cycle_start"

text \<open>A successful result, a checklist whose task it completed, and one with a second, pending task.\<close>

definition ok_result :: taskResult where
  "ok_result = \<lparr> success = True, confidence = Num 1, iterations = 1, results = [], duration = None,
                 error = None \<rparr>"

definition done_checklist :: checklist where
  "done_checklist =
     updateTaskStatus 1730000000000 ''a'' ok_result (Checklist [demo_task ''a'' None pending] demo_goal)"

definition half_done :: checklist where
  "half_done = updateTaskStatus 1730000000000 ''t1'' ok_result two_ready"

text \<open>
  Tools: the placeholder search tool of the registry, which reports confidence 0.8, a tool
  that reports confidence 0 and a tool that throws.
\<close>

definition web_search :: tool where
  "web_search =
     \<lparr> tool_id = ''web_search'', tool_name = ''Web Search'',
       tool_description = ''Search the web for information'',
       capabilities = [''search'', ''research'', ''information_gathering''],
       execute = (\<lambda>inp. Inr (Output (Some 0.8) ''results'')) \<rparr>"

definition silent_tool :: tool where
  "silent_tool = web_search\<lparr> tool_id := ''silent'', tool_name := ''Silent'',
                   execute := (\<lambda>inp. Inr (Output (Some 0) ''nothing found'')) \<rparr>"

definition broken_tool :: tool where
  "broken_tool = web_search\<lparr> tool_id := ''broken'', tool_name := ''Broken'',
                   execute := (\<lambda>inp. Inl ''connection refused'') \<rparr>"

text \<open>
  A model that selects the search tool, answers an evaluation of the results so far with
  the JSON object \<open>{"confidence": score}\<close>, read by the shipped \<open>evaluate\<close>, never finds the
  goal achieved and suggests no adjustment; \<open>rising\<close> scores 0.3, 0.5 and then 0.85. The
  model \<open>retry_llm s\<close> fails to select tools and answers a reflection with
  \<open>modify(t1, {status: s})\<close>. The model \<open>answering a\<close> answers every evaluation with \<open>a\<close>.
\<close>

definition demo_llm :: "(toolResult list \<Rightarrow> number) \<Rightarrow> llm" where
  "demo_llm score =
     \<lparr> llm_analyze = (\<lambda>g ctx. Inr \<lparr> a_successCriteria = None, a_constraints = None,
                                     a_expectedOutcomes = None, a_challenges = None \<rparr>),
       llm_decompose = (\<lambda>gd. Inr []),
       llm_selectTools = (\<lambda>t catalog. Inr [''web_search'']),
       llm_generateToolInput = (\<lambda>aTool t ctx prev. Inr ''{}''),
       llm_evaluate = AnthropicLLM_evaluate (\<lambda>t rs. Parsed (Numeric (score rs))),
       llm_strategize = (\<lambda>recent. Inr None),
       llm_assess = (\<lambda>gd done rate. Inr False) \<rparr>"

definition rising :: "toolResult list \<Rightarrow> number" where
  "rising rs = (if length rs = 1 then 0.3 else if length rs = 2 then 0.5 else 0.85)"


definition answering :: "evaluateAnswer \<Rightarrow> llm" where
  "answering a = (demo_llm rising)\<lparr> llm_evaluate := AnthropicLLM_evaluate (\<lambda>t rs. a) \<rparr>"

text \<open>An orchestrator around a model, with three registered tools and a clock that ticks.\<close>

definition demo_orch :: "llm \<Rightarrow> orchestrator" where
  "demo_orch l =
     \<lparr> o_maxIterations = 100, confidenceThreshold = 0.8,
       toolRegistry = [(''web_search'', web_search), (''silent'', silent_tool),
                       (''broken'', broken_tool)],
       llm = l, dateNow = (\<lambda>k. 1730000000000 + k) \<rparr>"

definition world0 :: world where
  "world0 = \<lparr> executionHistory = [], trace = [], ticks = 0 \<rparr>"

text \<open>Tasks as the executor receives them, marked in progress.\<close>

definition iter_task :: task where
  "iter_task = (demo_task ''t1'' None in_progress)\<lparr> requiresIterativeExecution := True \<rparr>"

definition single_task :: task where
  "single_task = demo_task ''t1'' None in_progress"

text \<open>A fresh run ledger, and one whose entries succeeded or failed as the flags say.\<close>

definition er0 :: executionResult where
  "er0 = \<lparr> goal = ''g'', startTime = 1730000000000, endTime = None, er_duration = None,
           er_iterations = 0, tasksCompleted = [], er_status = run_in_progress \<rparr>"


section \<open>The checklist\<close>

lemma update_values: "set (AList.update k v al) \<subseteq> insert (k, v) (set al)"
  by (induct al) auto

lemma foldl_update_pred:
  "(\<And>k v. (k, v) \<in> set acc \<Longrightarrow> P v) \<Longrightarrow> (\<And>k v. (k, v) \<in> set es \<Longrightarrow> P v)
   \<Longrightarrow> (k, v) \<in> set (foldl (\<lambda>m (k, v). AList.update k v m) acc es) \<Longrightarrow> P v"
proof (induction es arbitrary: acc)
  case Nil then show ?case by simp
next
  case (Cons e es)
  obtain k' v' where e: "e = (k', v')" by (cases e)
  show ?case
  proof (rule Cons.IH[of "AList.update k' v' acc"])
    fix k v assume "(k, v) \<in> set (AList.update k' v' acc)"
    then have "(k, v) = (k', v') \<or> (k, v) \<in> set acc" using update_values by fastforce
    then show "P v" using Cons.prems(1) Cons.prems(2)[of k' v'] e by auto
  next
    fix k v assume "(k, v) \<in> set es" then show "P v" using Cons.prems(2)[of k v] by simp
  next
    show "(k, v) \<in> set (foldl (\<lambda>m (k, v). AList.update k v m) (AList.update k' v' acc) es)"
      using Cons.prems(3) e by simp
  qed
qed

lemma map_of_foldl_update:
  "map_of (foldl (\<lambda>m (k, v). AList.update k v m) acc es) = map_of acc ++ map_of (rev es)"
proof (induction es arbitrary: acc)
  case Nil then show ?case by simp
next
  case (Cons e es)
  obtain k' v' where e: "e = (k', v')" by (cases e)
  show ?case by (simp add: Cons.IH e AList.update_conv' map_add_upd_left fun_eq_iff map_add_def split: option.splits)
qed

lemma map_of_Map_of_entries: "map_of (Map_of_entries es) = map_of (rev es)"
  by (simp add: Map_of_entries_def map_of_foldl_update)

lemma distinct_foldl_update:
  "distinct (map fst acc) \<Longrightarrow> distinct (map fst (foldl (\<lambda>m (k, v). AList.update k v m) acc es))"
  by (induction es arbitrary: acc) (auto simp: AList.distinct_update split: prod.splits)

lemma distinct_Map_of_entries: "distinct (map fst (Map_of_entries es))"
  unfolding Map_of_entries_def by (rule distinct_foldl_update) simp

lemma Checklist_all_pending:
  "t \<in> set (getAllTasks (Checklist ts gd)) \<Longrightarrow> status t = pending"
proof -
  assume "t \<in> set (getAllTasks (Checklist ts gd))"
  then obtain k where "(k, t) \<in> set (Map_of_entries (map (\<lambda>t. (task_id t, t\<lparr>status := pending\<rparr>)) ts))"
    by (auto simp: getAllTasks_def Checklist_def)
  then show ?thesis
    unfolding Map_of_entries_def
    by (rule foldl_update_pred[where P = "\<lambda>t. status t = pending", rotated 2]) auto
qed

lemma map_of_rev_map_find:
  "map_of (rev (map (\<lambda>t. (f t, g t)) ts)) k = map_option g (find (\<lambda>t. f t = k) (rev ts))"
proof -
  have "map_of (map (\<lambda>t. (f t, g t)) xs) k = map_option g (find (\<lambda>t. f t = k) xs)" for xs
    by (induction xs) auto
  from this[of "rev ts"] show ?thesis by (simp add: rev_map)
qed

lemma Checklist_lookup:
  "getTask (Checklist ts gd) k = map_option (\<lambda>t. t\<lparr>status := pending\<rparr>) (find (\<lambda>t. task_id t = k) (rev ts))"
  by (simp add: getTask_def Checklist_def map_of_Map_of_entries map_of_rev_map_find)

lemma isAvailable_all_pending:
  assumes all: "\<And>t. t \<in> set (getAllTasks c) \<Longrightarrow> status t = pending"
    and mem: "t \<in> set (getAllTasks c)"
  shows "isAvailable c t = (case dependencies t of None \<Rightarrow> True | Some ds \<Rightarrow> ds = [])"
proof -
  have st: "status t = pending" using all[OF mem] .
  show ?thesis
  proof (cases "dependencies t")
    case None then show ?thesis using st by (simp add: isAvailable_def)
  next
    case (Some ds)
    show ?thesis
    proof (cases ds)
      case Nil then show ?thesis using st Some by (simp add: isAvailable_def)
    next
      case (Cons d ds')
      have "\<not> (case map_of (tasks c) d of None \<Rightarrow> False | Some dep \<Rightarrow> status dep = completed)"
      proof (cases "map_of (tasks c) d")
        case None then show ?thesis by simp
      next
        case (Some dep)
        then have "(d, dep) \<in> set (tasks c)" by (rule map_of_SomeD)
        then have "dep \<in> set (getAllTasks c)" unfolding getAllTasks_def by force
        then have "status dep = pending" by (rule all)
        then show ?thesis using Some by simp
      qed
      then show ?thesis using Some Cons st by (simp add: isAvailable_def depsCompleted_def)
    qed
  qed
qed

text \<open>
  C10 (constructor status reset). The constructor stores every task of the list it is
  given with status \<open>pending\<close>, whatever status the input carried: under each id the
  checklist holds the last input task with that id, its status overwritten. Right after
  construction no task is in progress, completed or failed, and the available tasks
  are exactly those with no dependency.
\<close>

theorem constructor_resets_status:
  "(\<forall>t \<in> set (getAllTasks (Checklist ts gd)). status t = pending) \<and>
   (\<forall>k. getTask (Checklist ts gd) k =
      map_option (\<lambda>t. t\<lparr>status := pending\<rparr>) (find (\<lambda>t. task_id t = k) (rev ts))) \<and>
   getInProgressTasks (Checklist ts gd) = [] \<and>
   getCompletedTasks (Checklist ts gd) = [] \<and>
   getFailedTasks (Checklist ts gd) = [] \<and>
   getAvailableTasks (Checklist ts gd) =
     filter (\<lambda>t. case dependencies t of None \<Rightarrow> True | Some ds \<Rightarrow> ds = [])
       (getAllTasks (Checklist ts gd))"
proof -
  let ?c = "Checklist ts gd"
  have p: "\<And>t. t \<in> set (getAllTasks ?c) \<Longrightarrow> status t = pending"
    by (rule Checklist_all_pending)
  have a: "getInProgressTasks ?c = []" "getCompletedTasks ?c = []" "getFailedTasks ?c = []"
    using p by (auto simp: getInProgressTasks_def getCompletedTasks_def getFailedTasks_def
        getAllTasks_def filter_empty_conv)
  have b: "getAvailableTasks ?c =
     filter (\<lambda>t. case dependencies t of None \<Rightarrow> True | Some ds \<Rightarrow> ds = []) (getAllTasks ?c)"
    unfolding getAvailableTasks_def getAllTasks_def[symmetric]
    by (rule filter_cong[OF refl]) (rule isAvailable_all_pending[OF p])
  show ?thesis using p a b Checklist_lookup by blast
qed

lemma depsCompleted_iff:
  "depsCompleted c ds \<longleftrightarrow> (\<forall>d \<in> set ds. \<exists>dep. getTask c d = Some dep \<and> status dep = completed)"
  by (auto simp: depsCompleted_def getTask_def list_all_iff split: option.splits)

lemma isAvailable_iff:
  "isAvailable c t \<longleftrightarrow> status t = pending \<and> depsCompleted c (deps_of t)"
  by (cases "dependencies t") (auto simp: isAvailable_def deps_of_def depsCompleted_def)

lemma getAvailableTasks_set:
  "t \<in> set (getAvailableTasks c) \<longleftrightarrow> t \<in> set (getAllTasks c) \<and> isAvailable c t"
  by (auto simp: getAvailableTasks_def getAllTasks_def)

lemma completed_closure:
  assumes ord: "completedInOrder c"
    and path: "(d, d') \<in> (dependsOn c)\<^sup>*"
    and fin: "getTask c d = Some dep" "status dep = completed"
  shows "\<exists>dep'. getTask c d' = Some dep' \<and> status dep' = completed"
  using path fin
proof (induction rule: rtrancl_induct)
  case base then show ?case by blast
next
  case (step y z)
  then obtain ty where ty: "getTask c y = Some ty" "status ty = completed" by blast
  from step.hyps(2) obtain ty' where "getTask c y = Some ty'" "z \<in> set (deps_of ty')"
    by (auto simp: dependsOn_def)
  with ty have z: "z \<in> set (deps_of ty)" by simp
  from ord ty have "depsCompleted c (deps_of ty)" unfolding completedInOrder_def by blast
  with z show ?case by (auto simp: depsCompleted_iff)
qed

lemma cyclic_not_available:
  assumes ord: "completedInOrder c"
    and stored: "getTask c k = Some t"
    and cyc: "(k, k) \<in> (dependsOn c)\<^sup>+"
  shows "\<not> isAvailable c t"
proof
  assume av: "isAvailable c t"
  then have pend: "status t = pending" and deps: "depsCompleted c (deps_of t)"
    by (simp_all add: isAvailable_iff)
  from cyc obtain d where d: "(k, d) \<in> dependsOn c" "(d, k) \<in> (dependsOn c)\<^sup>*"
    by (meson tranclD)
  from d(1) stored have "d \<in> set (deps_of t)" by (auto simp: dependsOn_def)
  with deps obtain dep where "getTask c d = Some dep" "status dep = completed"
    by (auto simp: depsCompleted_iff)
  from completed_closure[OF ord d(2) this] stored have "status t = completed" by auto
  with pend show False by simp
qed

lemma getTask_setTaskInProgress:
  "getTask (setTaskInProgress k c) k' =
     (if k' = k then map_option (\<lambda>t. t\<lparr>status := in_progress\<rparr>) (getTask c k) else getTask c k')"
  by (auto simp: getTask_def setTaskInProgress_def AList.update_conv' split: option.splits)

lemma getTask_updateTaskStatus:
  "getTask (updateTaskStatus now k res c) k' =
     (if k' = k
      then map_option (\<lambda>t. t\<lparr>status := (if success res then completed else failed),
                             result := Some res, completedAt := Some now\<rparr>) (getTask c k)
      else getTask c k')"
  by (auto simp: getTask_def updateTaskStatus_def AList.update_conv' split: option.splits)

lemma completedInOrder_Checklist: "completedInOrder (Checklist ts gd)"
proof -
  have "status t = pending" if "getTask (Checklist ts gd) k = Some t" for k t
  proof -
    from that have "(k, t) \<in> set (tasks (Checklist ts gd))"
      unfolding getTask_def by (rule map_of_SomeD)
    then have "t \<in> set (getAllTasks (Checklist ts gd))" unfolding getAllTasks_def by force
    then show ?thesis by (rule Checklist_all_pending)
  qed
  then show ?thesis unfolding completedInOrder_def by fastforce
qed

lemma completedInOrder_setTaskInProgress:
  assumes ord: "completedInOrder c" and stored: "getTask c k = Some t" and nc: "status t \<noteq> completed"
  shows "completedInOrder (setTaskInProgress k c)"
  unfolding completedInOrder_def
proof (intro allI impI)
  fix k' t' assume a: "getTask (setTaskInProgress k c) k' = Some t' \<and> status t' = completed"
  then have k': "k' \<noteq> k" using stored by (auto simp: getTask_setTaskInProgress split: if_splits)
  with a have "getTask c k' = Some t'" "status t' = completed"
    by (simp_all add: getTask_setTaskInProgress)
  with ord have dc: "depsCompleted c (deps_of t')" unfolding completedInOrder_def by blast
  show "depsCompleted (setTaskInProgress k c) (deps_of t')"
    unfolding depsCompleted_iff
  proof
    fix d assume "d \<in> set (deps_of t')"
    with dc obtain dep where dep: "getTask c d = Some dep" "status dep = completed"
      by (auto simp: depsCompleted_iff)
    with stored nc have "d \<noteq> k" by auto
    with dep show "\<exists>dep. getTask (setTaskInProgress k c) d = Some dep \<and> status dep = completed"
      by (simp add: getTask_setTaskInProgress)
  qed
qed

lemma completedInOrder_updateTaskStatus:
  assumes ord: "completedInOrder c" and stored: "getTask c k = Some t"
    and nc: "status t \<noteq> completed" and ready: "depsCompleted c (deps_of t)"
  shows "completedInOrder (updateTaskStatus now k res c)"
  unfolding completedInOrder_def
proof (intro allI impI)
  fix k' t'
  assume a: "getTask (updateTaskStatus now k res c) k' = Some t' \<and> status t' = completed"
  have keep: "\<exists>dep. getTask (updateTaskStatus now k res c) d = Some dep \<and> status dep = completed"
    if "getTask c d = Some dep" "status dep = completed" for d dep
  proof -
    from that stored nc have "d \<noteq> k" by auto
    with that show ?thesis by (simp add: getTask_updateTaskStatus)
  qed
  have "depsCompleted c (deps_of t')"
  proof (cases "k' = k")
    case True
    with a stored have "deps_of t' = deps_of t"
      by (auto simp: getTask_updateTaskStatus deps_of_def)
    with ready show ?thesis by simp
  next
    case False
    with a have "getTask c k' = Some t'" "status t' = completed"
      by (simp_all add: getTask_updateTaskStatus)
    with ord show ?thesis unfolding completedInOrder_def by blast
  qed
  then show "depsCompleted (updateTaskStatus now k res c) (deps_of t')"
    unfolding depsCompleted_iff using keep by blast
qed

lemma available_deps_completed:
  "t \<in> set (getAvailableTasks c) \<Longrightarrow> d \<in> set (deps_of t) \<Longrightarrow>
     \<exists>dep. getTask c d = Some dep \<and> status dep = completed"
  by (auto simp: getAvailableTasks_set isAvailable_iff depsCompleted_iff)

text \<open>
  C7 (dependency gating). In every state \<open>getAvailableTasks\<close> returns exactly the pending
  tasks each of whose dependency ids resolves to an existing completed task. So an
  available task has all its dependencies completed, and a task with a missing
  dependency, or with itself among its dependencies, is never available. A task on a
  longer dependency cycle is not available in any state where completed tasks have
  only completed dependencies; the constructor gives such a state, and marking an
  available task in progress or recording the result of an in-progress task whose
  dependencies are completed keeps it.
\<close>

theorem availableTasks_characterised:
  "getAvailableTasks c =
     filter (\<lambda>t. status t = pending \<and>
                 (\<forall>d \<in> set (deps_of t). \<exists>dep. getTask c d = Some dep \<and> status dep = completed))
       (getAllTasks c)
   \<and> (t \<in> set (getAvailableTasks c) \<and> d \<in> set (deps_of t) \<longrightarrow>
        (\<exists>dep. getTask c d = Some dep \<and> status dep = completed))
   \<and> (d \<in> set (deps_of t) \<and> getTask c d = None \<longrightarrow> t \<notin> set (getAvailableTasks c))
   \<and> (getTask c k = Some t \<and> k \<in> set (deps_of t) \<longrightarrow> t \<notin> set (getAvailableTasks c))
   \<and> (completedInOrder c \<and> getTask c k = Some t \<and> (k, k) \<in> (dependsOn c)\<^sup>+ \<longrightarrow>
        t \<notin> set (getAvailableTasks c))
   \<and> completedInOrder (Checklist ts gd)
   \<and> (completedInOrder c \<and> getTask c k = Some t \<and> isAvailable c t \<longrightarrow>
        completedInOrder (setTaskInProgress k c))
   \<and> (completedInOrder c \<and> getTask c k = Some t \<and> status t = in_progress \<and>
        depsCompleted c (deps_of t) \<longrightarrow> completedInOrder (updateTaskStatus now k res c))"
proof -
  have 1: "getAvailableTasks c =
     filter (\<lambda>t. status t = pending \<and>
                 (\<forall>d \<in> set (deps_of t). \<exists>dep. getTask c d = Some dep \<and> status dep = completed))
       (getAllTasks c)"
    unfolding getAvailableTasks_def getAllTasks_def
    by (rule filter_cong[OF refl]) (simp add: isAvailable_iff depsCompleted_iff)
  have 2: "t \<in> set (getAvailableTasks c) \<and> d \<in> set (deps_of t) \<longrightarrow>
        (\<exists>dep. getTask c d = Some dep \<and> status dep = completed)"
    using available_deps_completed by blast
  have 3: "d \<in> set (deps_of t) \<and> getTask c d = None \<longrightarrow> t \<notin> set (getAvailableTasks c)"
    using 2 by auto
  have 4: "getTask c k = Some t \<and> k \<in> set (deps_of t) \<longrightarrow> t \<notin> set (getAvailableTasks c)"
  proof (intro impI notI, elim conjE)
    assume a: "getTask c k = Some t" "k \<in> set (deps_of t)" "t \<in> set (getAvailableTasks c)"
    then have "status t = pending" by (simp add: getAvailableTasks_set isAvailable_iff)
    moreover from available_deps_completed[OF a(3) a(2)] a(1) have "status t = completed" by auto
    ultimately show False by simp
  qed
  have 5: "completedInOrder c \<and> getTask c k = Some t \<and> (k, k) \<in> (dependsOn c)\<^sup>+ \<longrightarrow>
        t \<notin> set (getAvailableTasks c)"
    using cyclic_not_available by (auto simp: getAvailableTasks_set)
  have 7: "completedInOrder c \<and> getTask c k = Some t \<and> isAvailable c t \<longrightarrow>
        completedInOrder (setTaskInProgress k c)"
    using completedInOrder_setTaskInProgress[of c k t] by (auto simp: isAvailable_iff)
  have 8: "completedInOrder c \<and> getTask c k = Some t \<and> status t = in_progress \<and>
        depsCompleted c (deps_of t) \<longrightarrow> completedInOrder (updateTaskStatus now k res c)"
    using completedInOrder_updateTaskStatus[of c k t now res] by auto
  show ?thesis using 1 2 3 4 5 completedInOrder_Checklist 7 8 by blast
qed

lemma two_tasks_eval:
  "tasks two_tasks = [(''a'', demo_task ''a'' None pending), (''b'', demo_task ''b'' (Some [''a'']) pending)]"
  by (simp add: two_tasks_def Checklist_def Map_of_entries_def demo_task_def)

lemma cycle_start_eval:
  "tasks cycle_start = [(''A'', demo_task ''A'' (Some [''B'']) pending), (''B'', demo_task ''B'' (Some [''A'']) pending)]"
  by (simp add: cycle_start_def Checklist_def Map_of_entries_def demo_task_def)

lemma cycle_adjusted_eval:
  "tasks cycle_adjusted = [(''A'', demo_task ''A'' (Some [''B'']) pending), (''B'', demo_task ''B'' (Some [''A'']) completed)]"
  by (simp add: cycle_adjusted_def cycle_start_eval Object_assign_def patch_def patch_opt_def
      noModifications_def demo_task_def)

theorem constructor_resets_status_witness:
  "map task_id (getAllTasks two_tasks) = [''a'', ''b''] \<and>
   map status (getAllTasks two_tasks) = [pending, pending] \<and>
   map task_id (getAvailableTasks two_tasks) = [''a'']"
proof -
  note inst = constructor_resets_status[of
      "[demo_task ''a'' None completed, demo_task ''b'' (Some [''a'']) failed]" demo_goal]
  have ev: "getAllTasks two_tasks =
      [demo_task ''a'' None pending, demo_task ''b'' (Some [''a'']) pending]"
    by (simp add: getAllTasks_def two_tasks_eval)
  from inst have a: "\<forall>t \<in> set (getAllTasks two_tasks). status t = pending"
    unfolding two_tasks_def by blast
  from inst have b: "getAvailableTasks two_tasks =
      filter (\<lambda>t. case dependencies t of None \<Rightarrow> True | Some ds \<Rightarrow> ds = [])
        (getAllTasks two_tasks)"
    unfolding two_tasks_def by blast
  have "map task_id (getAvailableTasks two_tasks) = [''a'']"
    unfolding b ev by (simp add: demo_task_def)
  moreover have "map status (getAllTasks two_tasks) = [pending, pending]"
    using a unfolding ev by simp
  moreover have "map task_id (getAllTasks two_tasks) = [''a'', ''b'']"
    unfolding ev by (simp add: demo_task_def)
  ultimately show ?thesis by simp
qed

text \<open>
  Without that condition the cycle clause fails: after the adjustment
  \<open>modify(B, {status: completed})\<close> on two tasks that depend on each other, \<open>A\<close> is
  available although it lies on a dependency cycle.
\<close>

theorem cyclic_task_available_counterexample:
  "map task_id (getAvailableTasks cycle_adjusted) = [''A''] \<and>
   (''A'', ''A'') \<in> (dependsOn cycle_adjusted)\<^sup>+"
proof -
  have ab: "(''A'', ''B'') \<in> dependsOn cycle_adjusted" and ba: "(''B'', ''A'') \<in> dependsOn cycle_adjusted"
    by (simp_all add: dependsOn_def getTask_def cycle_adjusted_eval deps_of_def demo_task_def)
  have "map task_id (getAvailableTasks cycle_adjusted) = [''A'']"
    by (simp add: getAvailableTasks_def cycle_adjusted_eval isAvailable_def depsCompleted_def demo_task_def)
  with ab ba show ?thesis by (meson r_into_trancl' trancl_trans)
qed

theorem availableTasks_characterised_witness:
  "completedInOrder cycle_start \<and>
   getTask cycle_start ''A'' = Some (demo_task ''A'' (Some [''B'']) pending) \<and>
   (''A'', ''A'') \<in> (dependsOn cycle_start)\<^sup>+ \<and>
   demo_task ''A'' (Some [''B'']) pending \<notin> set (getAvailableTasks cycle_start) \<and>
   getAvailableTasks cycle_start = []"
proof -
  let ?A = "demo_task ''A'' (Some [''B'']) pending"
  have ab: "(''A'', ''B'') \<in> dependsOn cycle_start" and ba: "(''B'', ''A'') \<in> dependsOn cycle_start"
    by (simp_all add: dependsOn_def getTask_def cycle_start_eval deps_of_def demo_task_def)
  then have cyc: "(''A'', ''A'') \<in> (dependsOn cycle_start)\<^sup>+" by (meson r_into_trancl' trancl_trans)
  have g: "getTask cycle_start ''A'' = Some ?A" by (simp add: getTask_def cycle_start_eval)
  note inst = availableTasks_characterised[of cycle_start ?A "''B''" "''A''"
      "[demo_task ''A'' (Some [''B'']) pending, demo_task ''B'' (Some [''A'']) pending]" demo_goal 0
      "\<lparr>success = True, confidence = Num 1, iterations = 1, results = [], duration = None, error = None\<rparr>"]
  from inst have ord: "completedInOrder cycle_start" by (simp add: cycle_start_def)
  from inst ord g cyc have "?A \<notin> set (getAvailableTasks cycle_start)" by blast
  moreover have "getAvailableTasks cycle_start = []"
    by (simp add: getAvailableTasks_def cycle_start_eval isAvailable_def depsCompleted_def demo_task_def)
  ultimately show ?thesis using ord g cyc by simp
qed

lemma keys_update:
  "\<exists>ks. map fst (AList.update k v al) = map fst al @ ks"
  by (simp add: AList.update_keys)

lemma keys_update_present:
  "map_of al k = Some v' \<Longrightarrow> map fst (AList.update k v al) = map fst al"
  by (simp add: AList.update_keys) (metis domI dom_map_of_conv_image_fst)

lemma keys_applyAdjustment:
  "\<exists>ks. map fst (tasks (applyAdjustment now adj c)) = map fst (tasks c) @ ks"
  by (cases adj) (auto simp: keys_update split: option.splits)

lemma keys_applyAdjustments:
  "\<exists>ks. map fst (tasks (applyAdjustments clock i adjs c)) = map fst (tasks c) @ ks"
proof (induction adjs arbitrary: i c)
  case Nil then show ?case by simp
next
  case (Cons adj adjs)
  from keys_applyAdjustment[of "clock i" adj c] obtain ks1
    where 1: "map fst (tasks (applyAdjustment (clock i) adj c)) = map fst (tasks c) @ ks1" ..
  from Cons.IH[of "Suc i" "applyAdjustment (clock i) adj c"] obtain ks2
    where "map fst (tasks (applyAdjustments clock (Suc i) adjs (applyAdjustment (clock i) adj c)))
             = map fst (tasks (applyAdjustment (clock i) adj c)) @ ks2" ..
  with 1 show ?case by simp
qed

lemma applyAdjustments_append:
  "applyAdjustments clock i (xs @ ys) c =
     applyAdjustments clock (i + length xs) ys (applyAdjustments clock i xs c)"
  by (induction xs arbitrary: i c) simp_all

lemma getTask_Add:
  "getTask (applyAdjustment now (Add n) c) k =
     (if k = newTaskId now n then Some (makeTask now n) else getTask c k)"
  by (simp add: getTask_def AList.update_conv')

lemma getTask_Reorder:
  "getTask (applyAdjustment now (Reorder k p) c) k' =
     (if k' = k then map_option (\<lambda>t. t\<lparr>priority := p\<rparr>) (getTask c k) else getTask c k')"
  by (simp add: getTask_def AList.update_conv' split: option.splits)

lemma getTask_Modify:
  "getTask (applyAdjustment now (Modify k m) c) k' =
     (if k' = k then map_option (\<lambda>t. Object_assign t m) (getTask c k) else getTask c k')"
  by (simp add: getTask_def AList.update_conv' split: option.splits)

lemma length_update:
  "length (AList.update k v al) = (if k \<in> set (map fst al) then length al else Suc (length al))"
  by (induct al) auto

lemma length_Add:
  "length (tasks (applyAdjustment now (Add n) c)) =
     (if newTaskId now n \<in> set (map fst (tasks c)) then length (tasks c) else Suc (length (tasks c)))"
  by (simp add: length_update)

text \<open>
  What \<open>applyAdjustments\<close> does on every input. The adjustments are applied one after the
  other in list order, each to the checklist that the ones before it left. A \<open>reorder\<close> of a
  stored task sets its priority and a \<open>modify\<close> copies the fields of the patch into it, both
  leave the task under its key (also when the patch holds an id) and every other task as it
  was, and both do nothing for a key that is not in use; an adjustment of another type does
  nothing. An \<open>add\<close> stores a pending task under its id, with priority 5, threshold 0.8, 10
  iterations and empty dependency and capability lists for the fields it omits, and leaves
  the tasks under other keys as they were; the id is the given one, or \<open>task_\<close> followed by
  the clock reading when none is given, and it is not compared with the ids in use: the
  number of tasks grows by one when the id is new and stays the same when it is not (the
  task stored under it is replaced). No call makes the number of tasks smaller, and the
  keys present before it are still present after it, in the same order.
\<close>

theorem adjustments_applied_in_order:
  "applyAdjustments clock i [] c = c
   \<and> applyAdjustments clock i (adj # adjs) c =
       applyAdjustments clock (Suc i) adjs (applyAdjustment (clock i) adj c)
   \<and> applyAdjustments clock i (xs @ ys) c =
       applyAdjustments clock (i + length xs) ys (applyAdjustments clock i xs c)
   \<and> getTask (applyAdjustment now (Reorder k p) c) k' =
       (if k' = k then map_option (\<lambda>t. t\<lparr>priority := p\<rparr>) (getTask c k) else getTask c k')
   \<and> getTask (applyAdjustment now (Modify k m) c) k' =
       (if k' = k then map_option (\<lambda>t. Object_assign t m) (getTask c k) else getTask c k')
   \<and> applyAdjustment now (Unknown tag) c = c
   \<and> getTask (applyAdjustment now (Add n) c) k' =
       (if k' = newTaskId now n then Some (makeTask now n) else getTask c k')
   \<and> status (makeTask now n) = pending
   \<and> (n_priority n = None \<longrightarrow> priority (makeTask now n) = 5)
   \<and> (n_successThreshold n = None \<longrightarrow> successThreshold (makeTask now n) = 0.8)
   \<and> (n_maxIterations n = None \<longrightarrow> maxIterations (makeTask now n) = Some 10)
   \<and> (n_dependencies n = None \<longrightarrow> dependencies (makeTask now n) = Some [])
   \<and> (n_requiredCapabilities n = None \<longrightarrow> requiredCapabilities (makeTask now n) = [])
   \<and> (n_id n = Some s \<and> s \<noteq> [] \<longrightarrow> task_id (makeTask now n) = s)
   \<and> (n_id n = None \<or> n_id n = Some [] \<longrightarrow> task_id (makeTask now n) = ''task_'' @ decimal now)
   \<and> length (tasks (applyAdjustment now (Add n) c)) =
       (if newTaskId now n \<in> set (map fst (tasks c)) then length (tasks c)
        else Suc (length (tasks c)))
   \<and> length (getAllTasks c) \<le> length (getAllTasks (applyAdjustments clock i adjs c))
   \<and> (\<exists>ks. map fst (tasks (applyAdjustments clock i adjs c)) = map fst (tasks c) @ ks)"
proof -
  have mono: "length (getAllTasks c) \<le> length (getAllTasks (applyAdjustments clock i adjs c))"
  proof -
    from keys_applyAdjustments[of clock i adjs c] obtain ks
      where "map fst (tasks (applyAdjustments clock i adjs c)) = map fst (tasks c) @ ks" ..
    then have "length (map fst (tasks (applyAdjustments clock i adjs c)))
        = length (map fst (tasks c) @ ks)" by simp
    then show ?thesis by (simp add: getAllTasks_def)
  qed
  have dflt: "status (makeTask now n) = pending"
    "n_priority n = None \<longrightarrow> priority (makeTask now n) = 5"
    "n_successThreshold n = None \<longrightarrow> successThreshold (makeTask now n) = 0.8"
    "n_maxIterations n = None \<longrightarrow> maxIterations (makeTask now n) = Some 10"
    "n_dependencies n = None \<longrightarrow> dependencies (makeTask now n) = Some []"
    "n_requiredCapabilities n = None \<longrightarrow> requiredCapabilities (makeTask now n) = []"
    by (simp_all add: makeTask_def or_default_def)
  have ids: "n_id n = Some s \<and> s \<noteq> [] \<longrightarrow> task_id (makeTask now n) = s"
    "n_id n = None \<or> n_id n = Some [] \<longrightarrow> task_id (makeTask now n) = ''task_'' @ decimal now"
    by (auto simp: makeTask_def newTaskId_def)
  have base: "applyAdjustments clock i [] c = c"
    "applyAdjustments clock i (adj # adjs) c =
       applyAdjustments clock (Suc i) adjs (applyAdjustment (clock i) adj c)"
    by simp_all
  have other: "applyAdjustment now (Unknown tag) c = c" by simp
  show ?thesis
    using base mono dflt ids keys_applyAdjustments[of clock i adjs c] other
      applyAdjustments_append[of clock i xs ys c] length_Add[of now n c]
      getTask_Add[of now n c k'] getTask_Reorder[of now k p c k'] getTask_Modify[of now k m c k']
    by blast
qed

lemma status_applyAdjustment:
  "\<not> rewritesStatus now k adj \<Longrightarrow>
     map_option status (getTask (applyAdjustment now adj c) k) = map_option status (getTask c k)"
  by (cases adj)
    (auto simp: getTask_def AList.update_conv' Object_assign_def patch_def split: option.splits)

lemma status_applyAdjustments:
  "statusUntouched clock i k adjs \<Longrightarrow>
     map_option status (getTask (applyAdjustments clock i adjs c) k) = map_option status (getTask c k)"
  by (induction adjs arbitrary: i c) (simp_all add: status_applyAdjustment)

text \<open>
  C5 (adjustment application): the id that an \<open>add\<close> without id receives is not fresh. Two
  such adjustments applied to an empty checklist within the same millisecond, the clock
  reading 1730000000000 in both rounds, both get the id \<open>task_1730000000000\<close>: it is in use
  when the second one receives it, the second task replaces the first, and the checklist
  ends with one task, named \<open>second\<close>, where fresh ids would leave two.
\<close>

theorem adds_in_one_millisecond_share_id:
  "newTaskId 1730000000000 (bare_task ''second'') = ''task_1730000000000''
   \<and> map fst (tasks (applyAdjustments (\<lambda>i. 1730000000000) 0
                       [Add (bare_task ''first'')] empty_checklist)) = [''task_1730000000000'']
   \<and> map (\<lambda>t. (task_id t, task_name t))
        (getAllTasks (applyAdjustments (\<lambda>i. 1730000000000) 0
           [Add (bare_task ''first''), Add (bare_task ''second'')] empty_checklist))
       = [(''task_1730000000000'', ''second'')]"
  by (simp add: empty_checklist_def Checklist_def Map_of_entries_def getAllTasks_def
      newTaskId_def makeTask_def bare_task_def decimal.simps)

theorem adjustments_applied_in_order_witness:
  "map_option (\<lambda>t. (priority t, successThreshold t, maxIterations t, dependencies t,
                     requiredCapabilities t, status t))
     (getTask (applyAdjustment 1730000000000 (Add (bare_task ''first'')) empty_checklist)
        ''task_1730000000000'')
     = Some (5, 0.8, Some 10, Some [], [], pending)"
proof -
  let ?n = "bare_task ''first''"
  note inst = adjustments_applied_in_order[where n = ?n and now = 1730000000000
      and c = empty_checklist]
  have omitted: "n_priority ?n = None" "n_successThreshold ?n = None" "n_maxIterations ?n = None"
    "n_dependencies ?n = None" "n_requiredCapabilities ?n = None" "n_id ?n = None"
    by (simp_all add: bare_task_def)
  have key: "newTaskId 1730000000000 ?n = ''task_1730000000000''"
    by (simp add: newTaskId_def bare_task_def decimal.simps)
  from inst[where k' = "newTaskId 1730000000000 ?n"]
  have "getTask (applyAdjustment 1730000000000 (Add ?n) empty_checklist)
      (newTaskId 1730000000000 ?n) = Some (makeTask 1730000000000 ?n)" by simp
  moreover from inst omitted have "priority (makeTask 1730000000000 ?n) = 5"
    "successThreshold (makeTask 1730000000000 ?n) = 0.8"
    "maxIterations (makeTask 1730000000000 ?n) = Some 10"
    "dependencies (makeTask 1730000000000 ?n) = Some []"
    "requiredCapabilities (makeTask 1730000000000 ?n) = []"
    "status (makeTask 1730000000000 ?n) = pending"
    by blast+
  ultimately show ?thesis unfolding key by simp
qed

section \<open>The task executor\<close>

lemma js_less_not_atLeast: "js_less x y \<Longrightarrow> \<not> js_atLeast x y"
  by (cases x) auto

lemma callTool_cases:
  obtains (ok) r w1 where "callTool_try orch aTool t ctx prev w = (Inr r, w1)"
      "callTool orch aTool t ctx prev w = (Inr r, w1)"
  | (caught) e w1 where "callTool_try orch aTool t ctx prev w = (Inl e, w1)"
      "callTool orch aTool t ctx prev w = (Inr (failedToolResult aTool e), w1)"
proof (cases "callTool_try orch aTool t ctx prev w")
  case (Pair res w1)
  show ?thesis
  proof (cases res)
    case (Inl e)
    with Pair show ?thesis by (intro caught[of e w1]) (simp_all add: callTool_def failedToolResult_def)
  next
    case (Inr r)
    with Pair show ?thesis by (intro ok[of r w1]) (simp_all add: callTool_def)
  qed
qed

lemma callTool_returns: "\<exists>r w1. callTool orch aTool t ctx prev w = (Inr r, w1)"
  by (rule callTool_cases[of orch aTool t ctx prev w]) blast+

lemma callTool_try_prepare_throws:
  "llm_generateToolInput (llm orch) aTool t ctx prev = Inl e \<Longrightarrow>
     callTool_try orch aTool t ctx prev w = (Inl e, issue GenerateToolInput w)"
  by (simp add: callTool_try_def prepareToolInput_def)

lemma callTool_try_execute_throws:
  "llm_generateToolInput (llm orch) aTool t ctx prev = Inr inp \<Longrightarrow> execute aTool inp = Inl e \<Longrightarrow>
     callTool_try orch aTool t ctx prev w =
       (Inl e, issue (Execute (tool_id aTool)) (snd (Date_now orch (issue GenerateToolInput w))))"
  by (simp add: callTool_try_def prepareToolInput_def split: prod.splits)

lemma callTool_try_Inr:
  assumes "callTool_try orch aTool t ctx prev w = (Inr r, w1)"
  shows "\<exists>inp conf payload. llm_generateToolInput (llm orch) aTool t ctx prev = Inr inp \<and>
           execute aTool inp = Inr (Output conf payload) \<and>
           tool_success r \<and> tool r = tool_name aTool \<and> tool_output r = Output conf payload \<and>
           tool_confidence r = or_default conf 1 \<and> tool_error r = None"
  using assms
  by (auto simp: callTool_try_def prepareToolInput_def Let_def
      split: prod.splits sum.splits toolOutput.splits)

lemma executions_issue:
  "executions (issue ev w) = executions w @ (case ev of Execute i \<Rightarrow> [i] | _ \<Rightarrow> [])"
  by (cases ev) (simp_all add: executions_def issue_def List.map_filter_def)

lemma executions_Date_now [simp]: "executions (snd (Date_now orch w)) = executions w"
  by (simp add: executions_def Date_now_def)

lemma trace_Date_now [simp]: "trace (snd (Date_now orch w)) = trace w"
  by (simp add: Date_now_def)

lemma executions_history [simp]: "executions (w\<lparr>executionHistory := h\<rparr>) = executions w"
  by (simp add: executions_def)

lemma callTool_try_executions:
  "callTool_try orch aTool t ctx prev w = (res, w1) \<Longrightarrow>
     executions w1 = executions w @
       (case llm_generateToolInput (llm orch) aTool t ctx prev of
          Inl e \<Rightarrow> [] | Inr inp \<Rightarrow> [tool_id aTool])"
  by (auto simp: callTool_try_def prepareToolInput_def Let_def executions_issue
      executions_Date_now[unfolded Date_now_def, simplified] Date_now_def executions_def issue_def
      List.map_filter_def
      split: prod.splits sum.splits toolOutput.splits)

lemma callTool_executions:
  "callTool orch aTool t ctx prev w = (res, w1) \<Longrightarrow>
     executions w1 = executions w @
       (case llm_generateToolInput (llm orch) aTool t ctx prev of
          Inl e \<Rightarrow> [] | Inr inp \<Rightarrow> [tool_id aTool])"
  by (rule callTool_cases[of orch aTool t ctx prev w]) (auto dest: callTool_try_executions)

lemma evaluateProgress_fst [simp]:
  "fst (evaluateProgress orch t rs w) = llm_evaluate (llm orch) t rs"
  by (simp add: evaluateProgress_def)

lemma evaluateProgress_eq:
  "evaluateProgress orch t rs w = (res, w1) \<longleftrightarrow>
     res = llm_evaluate (llm orch) t rs \<and> w1 = issue Evaluate w"
  by (auto simp: evaluateProgress_def)

text \<open>What one pass over the tools leaves behind.\<close>

lemma toolRound_Inl:
  "toolRound orch t ctx tools rs conf w = (Inl e, w1) \<Longrightarrow>
     \<exists>rs'. llm_evaluate (llm orch) t rs' = Inl e"
proof (induction tools arbitrary: rs conf w)
  case Nil then show ?case by simp
next
  case (Cons aTool moreTools)
  from callTool_returns[of orch aTool t ctx rs w] obtain r wa
    where ct: "callTool orch aTool t ctx rs w = (Inr r, wa)" by blast
  show ?case
  proof (cases "llm_evaluate (llm orch) t (rs @ [r])")
    case (Inl e') 
    with Cons.prems ct have "e' = e" by (simp add: evaluateProgress_def)
    with Inl show ?thesis by blast
  next
    case (Inr v)
    show ?thesis
    proof (cases "js_atLeast v (successThreshold t)")
      case True with Cons.prems ct Inr show ?thesis by (simp add: evaluateProgress_def)
    next
      case False
      with Cons.prems ct Inr
      have "toolRound orch t ctx moreTools (rs @ [r]) v (issue Evaluate wa) = (Inl e, w1)"
        by (simp add: evaluateProgress_def)
      then show ?thesis by (rule Cons.IH)
    qed
  qed
qed

lemma toolRound_Inr:
  "toolRound orch t ctx tools rs conf w = (Inr (rs', conf'), w1) \<Longrightarrow>
     \<exists>new. rs' = rs @ new \<and> length new \<le> length tools
       \<and> (new = [] \<longrightarrow> conf' = conf \<and> tools = [])
       \<and> (new \<noteq> [] \<longrightarrow> llm_evaluate (llm orch) t rs' = Inr conf')
       \<and> (\<forall>k. 0 < k \<and> k < length new \<longrightarrow>
             (\<exists>v. llm_evaluate (llm orch) t (rs @ take k new) = Inr v \<and> \<not> js_atLeast v (successThreshold t)))
       \<and> (\<not> js_atLeast conf' (successThreshold t) \<longrightarrow> length new = length tools)"
proof (induction tools arbitrary: rs conf w)
  case Nil then show ?case by simp
next
  case (Cons aTool moreTools)
  from callTool_returns[of orch aTool t ctx rs w] obtain r wa
    where ct: "callTool orch aTool t ctx rs w = (Inr r, wa)" by blast
  show ?case
  proof (cases "llm_evaluate (llm orch) t (rs @ [r])")
    case (Inl e') with Cons.prems ct show ?thesis by (simp add: evaluateProgress_def)
  next
    case (Inr v)
    show ?thesis
    proof (cases "js_atLeast v (successThreshold t)")
      case True
      with Cons.prems ct Inr have "rs' = rs @ [r]" "conf' = v"
        by (simp_all add: evaluateProgress_def)
      with Inr True show ?thesis by (intro exI[of _ "[r]"]) simp
    next
      case False
      with Cons.prems ct Inr
      have "toolRound orch t ctx moreTools (rs @ [r]) v (issue Evaluate wa) = (Inr (rs', conf'), w1)"
        by (simp add: evaluateProgress_def)
      from Cons.IH[OF this] obtain new where new: "rs' = (rs @ [r]) @ new"
        "length new \<le> length moreTools"
        "new = [] \<longrightarrow> conf' = v \<and> moreTools = []"
        "new \<noteq> [] \<longrightarrow> llm_evaluate (llm orch) t rs' = Inr conf'"
        "\<forall>k. 0 < k \<and> k < length new \<longrightarrow>
             (\<exists>v. llm_evaluate (llm orch) t ((rs @ [r]) @ take k new) = Inr v \<and> \<not> js_atLeast v (successThreshold t))"
        "\<not> js_atLeast conf' (successThreshold t) \<longrightarrow> length new = length moreTools"
        by blast
      have pre: "\<exists>v. llm_evaluate (llm orch) t (rs @ take k (r # new)) = Inr v
                    \<and> \<not> js_atLeast v (successThreshold t)"
        if "0 < k" "k < length (r # new)" for k
      proof (cases k)
        case 0 with that show ?thesis by simp
      next
        case (Suc j)
        show ?thesis
        proof (cases "j = 0")
          case True with Suc Inr False show ?thesis by simp
        next
          case False
          with Suc that new(5) show ?thesis by simp
        qed
      qed
      have last: "llm_evaluate (llm orch) t rs' = Inr conf'"
        using new(1,3,4) Inr by (cases "new = []") simp_all
      show ?thesis
        using new(1,2,6) pre last by (intro exI[of _ "r # new"]) auto
    qed
  qed
qed

lemma iterativeLoop_Inl:
  "iterativeLoop orch t tools ctx m rs conf its w = (Inl e, w1) \<Longrightarrow>
     \<exists>rs'. llm_evaluate (llm orch) t rs' = Inl e"
proof (induction orch t tools ctx m rs conf its w rule: iterativeLoop.induct)
  case (1 orch t tools ctx m rs conf its w)
  show ?case
  proof (cases "js_less conf (successThreshold t) \<and> real its < m")
    case False with "1.prems" show ?thesis by (simp add: iterativeLoop.simps)
  next
    case True
    obtain res wa where tr: "toolRound orch t ctx tools rs conf w = (res, wa)" by force
    show ?thesis
    proof (cases res)
      case (Inl e')
      with True tr "1.prems" have "e' = e" by (simp add: iterativeLoop.simps)
      with Inl tr show ?thesis by (auto dest: toolRound_Inl)
    next
      case (Inr p)
      obtain rs' conf' where p: "p = (rs', conf')" by force
      with True tr Inr "1.prems"
      have "iterativeLoop orch t tools ctx m rs' conf' (Suc its) wa = (Inl e, w1)"
        by (simp add: iterativeLoop.simps)
      then show ?thesis by (rule "1.IH"[OF True tr[symmetric] Inr p[symmetric]])
    qed
  qed
qed

lemma iterativeLoop_Inr:
  "iterativeLoop orch t tools ctx m rs conf its w = (Inr (rs', conf', its'), w1) \<Longrightarrow>
   evaluated orch t rs conf \<Longrightarrow>
     evaluated orch t rs' conf' \<and> its \<le> its'
     \<and> \<not> (js_less conf' (successThreshold t) \<and> real its' < m)
     \<and> (its < its' \<longrightarrow> real its' < m + 1)
     \<and> length rs' \<le> length rs + (its' - its) * length tools"
proof (induction orch t tools ctx m rs conf its w rule: iterativeLoop.induct)
  case (1 orch t tools ctx m rs conf its w)
  show ?case
  proof (cases "js_less conf (successThreshold t) \<and> real its < m")
    case False with "1.prems" show ?thesis by (auto simp: iterativeLoop.simps)
  next
    case True
    obtain res wa where tr: "toolRound orch t ctx tools rs conf w = (res, wa)" by force
    show ?thesis
    proof (cases res)
      case (Inl e') with True tr "1.prems" show ?thesis by (simp add: iterativeLoop.simps)
    next
      case (Inr p)
      obtain rsa confa where p: "p = (rsa, confa)" by force
      with True tr Inr "1.prems"
      have rec: "iterativeLoop orch t tools ctx m rsa confa (Suc its) wa = (Inr (rs', conf', its'), w1)"
        by (simp add: iterativeLoop.simps)
      from toolRound_Inr[OF tr[unfolded Inr p]] obtain new where new: "rsa = rs @ new"
        "length new \<le> length tools"
        "new = [] \<longrightarrow> confa = conf \<and> tools = []"
        "new \<noteq> [] \<longrightarrow> llm_evaluate (llm orch) t rsa = Inr confa"
        "\<forall>k. 0 < k \<and> k < length new \<longrightarrow>
             (\<exists>v. llm_evaluate (llm orch) t (rs @ take k new) = Inr v \<and> \<not> js_atLeast v (successThreshold t))"
        by blast
      have ev: "evaluated orch t rsa confa"
      proof (cases "new = []")
        case True with new "1.prems"(2) show ?thesis by simp
      next
        case ne: False
        have "\<exists>v. llm_evaluate (llm orch) t (take k rsa) = Inr v
                  \<and> \<not> js_atLeast v (successThreshold t)"
          if k: "0 < k" "k < length rsa" for k
        proof (cases "k < length rs")
          case True
          with k "1.prems"(2) new(1) show ?thesis by (simp add: evaluated_def)
        next
          case False
          show ?thesis
          proof (cases "k = length rs")
            case True
            with k have "rs \<noteq> []" by auto
            with "1.prems"(2) have "llm_evaluate (llm orch) t rs = Inr conf" by (simp add: evaluated_def)
            with True \<open>js_less conf (successThreshold t) \<and> real its < m\<close> new(1) show ?thesis
              by (simp add: js_less_not_atLeast)
          next
            case f2: False
            with False have "0 < k - length rs" by simp
            moreover from k new(1) False have "k - length rs < length new" by simp
            ultimately obtain v where "llm_evaluate (llm orch) t (rs @ take (k - length rs) new) = Inr v"
              "\<not> js_atLeast v (successThreshold t)" using new(5) by blast
            with False new(1) show ?thesis by simp
          qed
        qed
        with ne new(1,4) show ?thesis by (simp add: evaluated_def)
      qed
      from "1.IH"[OF True tr[symmetric] Inr p[symmetric] rec ev]
      have ih: "evaluated orch t rs' conf'" "Suc its \<le> its'"
        "\<not> (js_less conf' (successThreshold t) \<and> real its' < m)"
        "Suc its < its' \<longrightarrow> real its' < m + 1"
        "length rs' \<le> length rsa + (its' - Suc its) * length tools"
        by simp_all
      have bound: "real its' < m + 1"
      proof (cases "Suc its < its'")
        case True with ih(4) show ?thesis by simp
      next
        case False with ih(2) have "its' = Suc its" by simp
        with True show ?thesis by simp
      qed
      have "length rs' \<le> length rs + (its' - its) * length tools"
      proof -
        from ih(2) have "its' - its = Suc (its' - Suc its)" by simp
        with ih(5) new(1,2) show ?thesis by simp
      qed
      with ih bound show ?thesis by simp
    qed
  qed
qed

lemma iterativeLoop_rounds:
  "iterativeLoop orch t tools ctx m rs conf its w = (Inr (rs', conf', its'), w1) \<Longrightarrow>
     its \<le> its'
     \<and> (its' = its \<longrightarrow> rs' = rs \<and> conf' = conf)
     \<and> (its < its' \<longrightarrow> js_less conf (successThreshold t))
     \<and> (\<not> js_atLeast conf' (successThreshold t) \<longrightarrow>
          length rs' = length rs + (its' - its) * length tools)
     \<and> (its < its' \<and> js_atLeast conf' (successThreshold t) \<longrightarrow>
          length rs + (its' - Suc its) * length tools < length rs')"
proof (induction orch t tools ctx m rs conf its w rule: iterativeLoop.induct)
  case (1 orch t tools ctx m rs conf its w)
  show ?case
  proof (cases "js_less conf (successThreshold t) \<and> real its < m")
    case False with "1.prems" show ?thesis by (auto simp: iterativeLoop.simps)
  next
    case go: True
    obtain res wa where tr: "toolRound orch t ctx tools rs conf w = (res, wa)" by force
    show ?thesis
    proof (cases res)
      case (Inl e') with go tr "1.prems" show ?thesis by (simp add: iterativeLoop.simps)
    next
      case (Inr p)
      obtain rsa confa where p: "p = (rsa, confa)" by force
      with go tr Inr "1.prems"
      have rec: "iterativeLoop orch t tools ctx m rsa confa (Suc its) wa = (Inr (rs', conf', its'), w1)"
        by (simp add: iterativeLoop.simps)
      from toolRound_Inr[OF tr[unfolded Inr p]] obtain new where new: "rsa = rs @ new"
        "new = [] \<longrightarrow> confa = conf \<and> tools = []"
        "\<not> js_atLeast confa (successThreshold t) \<longrightarrow> length new = length tools"
        by blast
      from "1.IH"[OF go tr[symmetric] Inr p[symmetric] rec]
      have ih: "Suc its \<le> its'"
        "its' = Suc its \<longrightarrow> rs' = rsa \<and> conf' = confa"
        "Suc its < its' \<longrightarrow> js_less confa (successThreshold t)"
        "\<not> js_atLeast conf' (successThreshold t) \<longrightarrow>
           length rs' = length rsa + (its' - Suc its) * length tools"
        "Suc its < its' \<and> js_atLeast conf' (successThreshold t) \<longrightarrow>
           length rsa + (its' - Suc (Suc its)) * length tools < length rs'"
        by simp_all
      have full: "length new = length tools"
        if "Suc its < its' \<or> \<not> js_atLeast conf' (successThreshold t)"
      proof (cases "Suc its < its'")
        case True with ih(3) new(3) show ?thesis by (simp add: js_less_not_atLeast)
      next
        case False with ih(1) have "its' = Suc its" by simp
        with ih(2) that False new(3) show ?thesis by simp
      qed
      have a: "length rs' = length rs + (its' - its) * length tools"
        if low: "\<not> js_atLeast conf' (successThreshold t)"
      proof -
        from ih(1) have "its' - its = Suc (its' - Suc its)" by simp
        with ih(4) low full new(1) show ?thesis by simp
      qed
      have b: "length rs + (its' - Suc its) * length tools < length rs'"
        if high: "js_atLeast conf' (successThreshold t)"
      proof (cases "Suc its < its'")
        case True
        then have "its' - Suc its = Suc (its' - Suc (Suc its))" by simp
        with ih(5) high True full new(1) show ?thesis by simp
      next
        case False with ih(1) have eq: "its' = Suc its" by simp
        with ih(2) have same: "rs' = rsa" "conf' = confa" by simp_all
        have "new \<noteq> []"
        proof
          assume "new = []"
          with new(2) have "confa = conf" by simp
          with same high go show False by (simp add: js_less_not_atLeast)
        qed
        with same new(1) eq show ?thesis by simp
      qed
      from ih(1) go a b show ?thesis by auto
    qed
  qed
qed

lemma toolRound_single:
  "callTool orch aTool t ctx rs w = (Inr r, wa) \<Longrightarrow>
   llm_evaluate (llm orch) t (rs @ [r]) = Inr v \<Longrightarrow>
     toolRound orch t ctx [aTool] rs conf w = (Inr (rs @ [r], v), issue Evaluate wa)"
  by (simp add: evaluateProgress_def)

lemma three_rounds:
  assumes low: "0 < successThreshold t" "v1 < successThreshold t" "v2 < successThreshold t"
    and high: "successThreshold t \<le> v3"
    and budget: "2 < m"
    and ev: "\<And>rs. llm_evaluate (llm orch) t rs =
               Inr (Num (if length rs = 1 then v1 else if length rs = 2 then v2 else v3))"
  shows "\<exists>rs w1. iterativeLoop orch t [aTool] ctx m [] (Num 0) 0 w = (Inr (rs, Num v3, 3), w1)
           \<and> length rs = 3"
proof -
  obtain r1 w1 where c1: "callTool orch aTool t ctx [] w = (Inr r1, w1)"
    using callTool_returns by blast
  obtain r2 w2 where c2: "callTool orch aTool t ctx [r1] (issue Evaluate w1) = (Inr r2, w2)"
    using callTool_returns by blast
  obtain r3 w3 where c3: "callTool orch aTool t ctx [r1, r2] (issue Evaluate w2) = (Inr r3, w3)"
    using callTool_returns by blast
  have t1: "toolRound orch t ctx [aTool] [] (Num 0) w = (Inr ([r1], Num v1), issue Evaluate w1)"
    using toolRound_single[OF c1, of "Num v1" "Num 0"] by (simp add: ev)
  have t2: "toolRound orch t ctx [aTool] [r1] (Num v1) (issue Evaluate w1)
              = (Inr ([r1, r2], Num v2), issue Evaluate w2)"
    using toolRound_single[OF c2, of "Num v2" "Num v1"] by (simp add: ev)
  have t3: "toolRound orch t ctx [aTool] [r1, r2] (Num v2) (issue Evaluate w2)
              = (Inr ([r1, r2, r3], Num v3), issue Evaluate w3)"
    using toolRound_single[OF c3, of "Num v3" "Num v2"] by (simp add: ev)
  have l3: "iterativeLoop orch t [aTool] ctx m [r1, r2, r3] (Num v3) (Suc (Suc (Suc 0)))
              (issue Evaluate w3)
              = (Inr ([r1, r2, r3], Num v3, Suc (Suc (Suc 0))), issue Evaluate w3)"
    using high by (subst iterativeLoop.simps) simp
  have l2: "iterativeLoop orch t [aTool] ctx m [r1, r2] (Num v2) (Suc (Suc 0)) (issue Evaluate w2)
              = (Inr ([r1, r2, r3], Num v3, Suc (Suc (Suc 0))), issue Evaluate w3)"
    using budget low by (subst iterativeLoop.simps) (simp add: t3 l3 del: toolRound.simps)
  have l1: "iterativeLoop orch t [aTool] ctx m [r1] (Num v1) (Suc 0) (issue Evaluate w1)
              = (Inr ([r1, r2, r3], Num v3, Suc (Suc (Suc 0))), issue Evaluate w3)"
    using budget low by (subst iterativeLoop.simps) (simp add: t2 l2 del: toolRound.simps)
  have l0: "iterativeLoop orch t [aTool] ctx m [] (Num 0) 0 w
              = (Inr ([r1, r2, r3], Num v3, Suc (Suc (Suc 0))), issue Evaluate w3)"
    using budget low by (subst iterativeLoop.simps) (simp add: t1 l1 del: toolRound.simps)
  have "Suc (Suc (Suc 0)) = 3" by simp
  with l0 show ?thesis by (intro exI[of _ "[r1, r2, r3]"] exI[of _ "issue Evaluate w3"]) simp
qed

lemma evaluated_start: "evaluated orch t [] (Num 0)"
  by (simp add: evaluated_def)

lemma executeIterativeTask_Inr:
  assumes "executeIterativeTask orch t tools ctx w = (Inr res, w1)"
  shows "iterativeLoop orch t tools ctx (or_default (maxIterations t) 10) [] (Num 0) 0 w
           = (Inr (results res, confidence res, iterations res), w1)"
    and "success res = js_atLeast (confidence res) (successThreshold t)"
  using assms
  by (auto simp: executeIterativeTask_def Let_def split: prod.splits sum.splits)

lemma executeIterativeTask_Inl:
  assumes "executeIterativeTask orch t tools ctx w = (Inl e, w1)"
  shows "\<exists>rs. llm_evaluate (llm orch) t rs = Inl e"
proof -
  from assms
  have "iterativeLoop orch t tools ctx (or_default (maxIterations t) 10) [] (Num 0) 0 w = (Inl e, w1)"
    by (auto simp: executeIterativeTask_def Let_def split: prod.splits sum.splits)
  then show ?thesis by (rule iterativeLoop_Inl)
qed

lemma js_compared: "x \<noteq> NaN \<Longrightarrow> js_less x y \<or> js_atLeast x y"
  by (cases x) auto

text \<open>
  What the iterative executor does on every input, whatever the evaluations are.
  Whenever \<open>executeIterativeTask\<close> returns, success is \<open>confidence >= successThreshold\<close>. The
  outer loop has stopped because \<open>confidence < successThreshold\<close> is false or the budget
  \<open>maxIterations || 10\<close> is used up, and its last round started within the budget; when the
  confidence is not \<open>NaN\<close> this means that the threshold is met or the budget is used up.
  Every evaluation before the last one was short of the threshold, so no tool was called
  after the threshold was met, and the confidence is the value of the last evaluation (0
  when there was none). Every round short of the threshold calls all the tools: a task
  that fails has as many results as rounds times tools, and a task that succeeds after at
  least one round has made between one and all of the calls of its last round. The loop
  fails to return only when the evaluation itself throws. With threshold 0.8, one tool, a
  budget of at least 3 and the evaluations 0.3, 0.5, 0.85 it returns \<open>success = true\<close>,
  \<open>iterations = 3\<close> after three tool calls.
\<close>

theorem iterative_task_stops_at_threshold:
  "(executeIterativeTask orch t tools ctx w = (Inr res, w1) \<longrightarrow>
      success res = js_atLeast (confidence res) (successThreshold t)
      \<and> \<not> (js_less (confidence res) (successThreshold t)
            \<and> real (iterations res) < or_default (maxIterations t) 10)
      \<and> (confidence res \<noteq> NaN \<longrightarrow>
            success res \<or> or_default (maxIterations t) 10 \<le> real (iterations res))
      \<and> (0 < iterations res \<longrightarrow> real (iterations res) < or_default (maxIterations t) 10 + 1)
      \<and> (\<forall>k. 0 < k \<and> k < length (results res) \<longrightarrow>
            (\<exists>v. llm_evaluate (llm orch) t (take k (results res)) = Inr v
                 \<and> \<not> js_atLeast v (successThreshold t)))
      \<and> (results res \<noteq> [] \<longrightarrow> llm_evaluate (llm orch) t (results res) = Inr (confidence res))
      \<and> (results res = [] \<longrightarrow> confidence res = Num 0)
      \<and> (\<not> success res \<longrightarrow> length (results res) = iterations res * length tools)
      \<and> (success res \<and> 0 < iterations res \<longrightarrow>
            (iterations res - 1) * length tools < length (results res)
            \<and> length (results res) \<le> iterations res * length tools))
   \<and> (executeIterativeTask orch t tools ctx w = (Inl e, w1) \<longrightarrow>
        (\<exists>rs. llm_evaluate (llm orch) t rs = Inl e))
   \<and> (successThreshold t = 0.8 \<and> 3 \<le> or_default (maxIterations t) 10
       \<and> (\<forall>rs. llm_evaluate (llm orch) t rs =
                 Inr (Num (if length rs = 1 then 0.3 else if length rs = 2 then 0.5 else 0.85)))
       \<longrightarrow>
        (\<exists>rs w1. executeIterativeTask orch t [aTool] ctx w =
                    (Inr \<lparr> success = True, confidence = Num 0.85, iterations = 3, results = rs,
                           duration = None, error = None \<rparr>, w1)
                  \<and> length rs = 3))"
proof (intro conjI impI)
  assume a: "executeIterativeTask orch t tools ctx w = (Inr res, w1)"
  note loop = iterativeLoop_Inr[OF executeIterativeTask_Inr(1)[OF a] evaluated_start]
  note rounds = iterativeLoop_rounds[OF executeIterativeTask_Inr(1)[OF a]]
  note suc = executeIterativeTask_Inr(2)[OF a]
  show "success res = js_atLeast (confidence res) (successThreshold t)" by (rule suc)
  show stop: "\<not> (js_less (confidence res) (successThreshold t)
            \<and> real (iterations res) < or_default (maxIterations t) 10)"
    using loop by blast
  show "success res \<or> or_default (maxIterations t) 10 \<le> real (iterations res)"
    if "confidence res \<noteq> NaN"
    using stop suc js_compared[OF that, of "successThreshold t"] by auto
  show "real (iterations res) < or_default (maxIterations t) 10 + 1" if "0 < iterations res"
    using loop that by blast
  show "\<forall>k. 0 < k \<and> k < length (results res) \<longrightarrow>
            (\<exists>v. llm_evaluate (llm orch) t (take k (results res)) = Inr v
                 \<and> \<not> js_atLeast v (successThreshold t))"
    using loop by (simp add: evaluated_def)
  show "llm_evaluate (llm orch) t (results res) = Inr (confidence res)" if "results res \<noteq> []"
    using loop that by (simp add: evaluated_def)
  show "confidence res = Num 0" if "results res = []"
    using loop that by (simp add: evaluated_def)
  show "length (results res) = iterations res * length tools" if "\<not> success res"
    using rounds that suc by simp
  show "(iterations res - 1) * length tools < length (results res)"
    if "success res \<and> 0 < iterations res"
    using rounds that suc by simp
  show "length (results res) \<le> iterations res * length tools"
    using loop by simp
next
  assume "executeIterativeTask orch t tools ctx w = (Inl e, w1)"
  then show "\<exists>rs. llm_evaluate (llm orch) t rs = Inl e" by (rule executeIterativeTask_Inl)
next
  assume a: "successThreshold t = 0.8 \<and> 3 \<le> or_default (maxIterations t) 10
       \<and> (\<forall>rs. llm_evaluate (llm orch) t rs =
                 Inr (Num (if length rs = 1 then 0.3 else if length rs = 2 then 0.5 else 0.85)))"
  then have "\<exists>rs w1. iterativeLoop orch t [aTool] ctx (or_default (maxIterations t) 10) []
                 (Num 0) 0 w = (Inr (rs, Num 0.85, 3), w1) \<and> length rs = 3"
    by (intro three_rounds[where ?v1.0 = "0.3" and ?v2.0 = "0.5"]) simp_all
  then obtain rs w1 where "iterativeLoop orch t [aTool] ctx (or_default (maxIterations t) 10) []
                 (Num 0) 0 w = (Inr (rs, Num 0.85, 3), w1)" "length rs = 3" by blast
  with a show "\<exists>rs w1. executeIterativeTask orch t [aTool] ctx w =
                    (Inr \<lparr> success = True, confidence = Num 0.85, iterations = 3, results = rs,
                           duration = None, error = None \<rparr>, w1)
                  \<and> length rs = 3"
    by (simp add: executeIterativeTask_def)
qed

lemmas demo_defs = demo_orch_def demo_llm_def answering_def web_search_def silent_tool_def
  broken_tool_def world0_def iter_task_def single_task_def demo_task_def rising_def

lemmas executor_defs = executeIterativeTask_def executeSingleTask_def callTool_def callTool_try_def
  prepareToolInput_def evaluateProgress_def AnthropicLLM_evaluate_def Date_now_def issue_def
  or_default_def Let_def

theorem iterative_task_stops_at_threshold_witness:
  "map_sum id (\<lambda>r. (success r, confidence r, iterations r, length (results r)))
       (fst (executeIterativeTask (demo_orch (demo_llm rising)) iter_task [web_search] ''{}'' world0))
     = Inr (True, Num 0.85, 3, 3)"
proof -
  let ?orch = "demo_orch (demo_llm rising)"
  have "successThreshold iter_task = 0.8 \<and> 3 \<le> or_default (maxIterations iter_task) 10
       \<and> (\<forall>rs. llm_evaluate (llm ?orch) iter_task rs =
                 Inr (Num (if length rs = 1 then 0.3 else if length rs = 2 then 0.5 else 0.85)))"
    by (simp add: demo_defs or_default_def AnthropicLLM_evaluate_def)
  with iterative_task_stops_at_threshold[where orch = ?orch and t = iter_task and ctx = "''{}''"
      and w = world0 and aTool = web_search]
  obtain rs w1 where "executeIterativeTask ?orch iter_task [web_search] ''{}'' world0 =
                    (Inr \<lparr> success = True, confidence = Num 0.85, iterations = 3, results = rs,
                           duration = None, error = None \<rparr>, w1)" "length rs = 3"
    by blast
  then show ?thesis by simp
qed

text \<open>
  C4 (iterative-mode termination): the outer loop can stop with the threshold unmet and
  budget left. The task has threshold 0.8, no \<open>maxIterations\<close> (a budget of 10) and one
  selected tool, and the model answers every evaluation with \<open>{"confidence": "high"}\<close>. The
  shipped \<open>evaluate\<close> makes \<open>NaN\<close> of the answer, both \<open>NaN >= 0.8\<close> and \<open>NaN < 0.8\<close> are false, and
  the executor returns after one round and one tool call with \<open>success = false\<close> and
  confidence \<open>NaN\<close>. An answer that does not parse is read as confidence 0 by the same
  \<open>evaluate\<close>, and the same task then runs its ten rounds.
\<close>

theorem non_numeric_confidence_ends_task_loop:
  "AnthropicLLM_evaluate (\<lambda>t rs. Parsed NonNumeric) iter_task [] = Inr NaN
   \<and> successThreshold iter_task = 0.8
   \<and> or_default (maxIterations iter_task) 10 = 10
   \<and> map_sum id (\<lambda>r. (success r, confidence r, iterations r, length (results r)))
       (fst (executeIterativeTask (demo_orch (answering (Parsed NonNumeric))) iter_task
               [web_search] ''{}'' world0))
     = Inr (False, NaN, 1, 1)
   \<and> map_sum id (\<lambda>r. (success r, confidence r, iterations r, length (results r)))
       (fst (executeIterativeTask (demo_orch (answering NotParsed)) iter_task
               [web_search] ''{}'' world0))
     = Inr (False, Num 0, 10, 10)"
  by (simp add: demo_defs executor_defs iterativeLoop.simps)




lemma executeSingleTask_Cons:
  "callTool orch aTool t ctx [] w = (Inr r, w1) \<Longrightarrow>
     executeSingleTask orch t (aTool # others) ctx w =
       (Inr \<lparr> success = tool_success r,
              confidence = Num (or_default (Some (tool_confidence r)) 1),
              iterations = 1, results = [r], duration = None, error = None \<rparr>, w1)"
  by (simp add: executeSingleTask_def)

lemma callTool_reported:
  assumes gen: "llm_generateToolInput (llm orch) aTool t ctx prev = Inr inp"
    and ex: "execute aTool inp = Inr (Output conf payload)"
    and ct: "callTool orch aTool t ctx prev w = (Inr r, w1)"
  shows "tool_success r \<and> tool_confidence r = or_default conf 1"
proof (rule callTool_cases[of orch aTool t ctx prev w])
  fix r' w' assume "callTool_try orch aTool t ctx prev w = (Inr r', w')"
    "callTool orch aTool t ctx prev w = (Inr r', w')"
  with ct callTool_try_Inr[of orch aTool t ctx prev w r' w'] gen ex show ?thesis by auto
next
  fix e w' assume "callTool_try orch aTool t ctx prev w = (Inl e, w')"
  with gen ex show ?thesis
    by (auto simp: callTool_try_def prepareToolInput_def Let_def split: prod.splits)
qed

text \<open>
  C3 (single-mode execution), as the code has it. With no tool the result is failed with
  confidence 0, one iteration, no results and the message
  \<open>No suitable tools found for this task\<close>. Otherwise only the first tool is called, once:
  its \<open>execute\<close> runs exactly once when the input for it could be generated and not at
  all when that generation throws. The task succeeds iff the call does, and its confidence
  is the one the tool reported when that is not 0, and 1 when the tool reported none.
\<close>

theorem single_task_runs_first_tool:
  "executeSingleTask orch t [] ctx w =
     (Inr \<lparr> success = False, confidence = Num 0, iterations = 1, results = [], duration = None,
            error = Some ''No suitable tools found for this task'' \<rparr>, w)
   \<and> (\<exists>r res w1.
         callTool orch aTool t ctx [] w = (Inr r, w1)
         \<and> executeSingleTask orch t (aTool # others) ctx w = (Inr res, w1)
         \<and> success res = tool_success r \<and> iterations res = 1 \<and> results res = [r]
         \<and> error res = None
         \<and> (tool_confidence r \<noteq> 0 \<longrightarrow> confidence res = Num (tool_confidence r))
         \<and> executions w1 = executions w @
              (case llm_generateToolInput (llm orch) aTool t ctx [] of
                 Inl e \<Rightarrow> [] | Inr inp \<Rightarrow> [tool_id aTool])
         \<and> (\<forall>inp v payload.
               llm_generateToolInput (llm orch) aTool t ctx [] = Inr inp
               \<and> execute aTool inp = Inr (Output (Some v) payload) \<and> v \<noteq> 0 \<longrightarrow>
               success res \<and> confidence res = Num v)
         \<and> (\<forall>inp payload.
               llm_generateToolInput (llm orch) aTool t ctx [] = Inr inp
               \<and> execute aTool inp = Inr (Output None payload) \<longrightarrow>
               success res \<and> confidence res = Num 1))"
proof -
  obtain r w1 where ct: "callTool orch aTool t ctx [] w = (Inr r, w1)"
    using callTool_returns by blast
  let ?res = "\<lparr> success = tool_success r,
              confidence = Num (or_default (Some (tool_confidence r)) 1),
              iterations = 1, results = [r], duration = None, error = None \<rparr>"
  have run: "executeSingleTask orch t (aTool # others) ctx w = (Inr ?res, w1)"
    by (rule executeSingleTask_Cons[OF ct])
  have nz: "tool_confidence r \<noteq> 0 \<longrightarrow> confidence ?res = Num (tool_confidence r)"
    by (simp add: or_default_def)
  have ex: "executions w1 = executions w @
              (case llm_generateToolInput (llm orch) aTool t ctx [] of
                 Inl e \<Rightarrow> [] | Inr inp \<Rightarrow> [tool_id aTool])"
    by (rule callTool_executions[OF ct])
  have some: "\<forall>inp v payload.
               llm_generateToolInput (llm orch) aTool t ctx [] = Inr inp
               \<and> execute aTool inp = Inr (Output (Some v) payload) \<and> v \<noteq> 0 \<longrightarrow>
               success ?res \<and> confidence ?res = Num v"
    using callTool_reported[OF _ _ ct] by (fastforce simp: or_default_def)
  have none: "\<forall>inp payload.
               llm_generateToolInput (llm orch) aTool t ctx [] = Inr inp
               \<and> execute aTool inp = Inr (Output None payload) \<longrightarrow>
               success ?res \<and> confidence ?res = Num 1"
    using callTool_reported[OF _ _ ct] by (fastforce simp: or_default_def)
  have "executeSingleTask orch t [] ctx w =
     (Inr \<lparr> success = False, confidence = Num 0, iterations = 1, results = [], duration = None,
            error = Some ''No suitable tools found for this task'' \<rparr>, w)"
    by (simp add: executeSingleTask_def)
  moreover have "\<exists>r res w1.
         callTool orch aTool t ctx [] w = (Inr r, w1)
         \<and> executeSingleTask orch t (aTool # others) ctx w = (Inr res, w1)
         \<and> success res = tool_success r \<and> iterations res = 1 \<and> results res = [r]
         \<and> error res = None
         \<and> (tool_confidence r \<noteq> 0 \<longrightarrow> confidence res = Num (tool_confidence r))
         \<and> executions w1 = executions w @
              (case llm_generateToolInput (llm orch) aTool t ctx [] of
                 Inl e \<Rightarrow> [] | Inr inp \<Rightarrow> [tool_id aTool])
         \<and> (\<forall>inp v payload.
               llm_generateToolInput (llm orch) aTool t ctx [] = Inr inp
               \<and> execute aTool inp = Inr (Output (Some v) payload) \<and> v \<noteq> 0 \<longrightarrow>
               success res \<and> confidence res = Num v)
         \<and> (\<forall>inp payload.
               llm_generateToolInput (llm orch) aTool t ctx [] = Inr inp
               \<and> execute aTool inp = Inr (Output None payload) \<longrightarrow>
               success res \<and> confidence res = Num 1)"
    using ct run nz ex some none
    by (intro exI[of _ r] exI[of _ ?res] exI[of _ w1]) simp
  ultimately show ?thesis by blast
qed

text \<open>
  The message is not \<open>no suitable tool\<close>, and a tool that reports confidence 0 yields a
  task confidence of 1.
\<close>

theorem single_task_confidence_counterexample:
  "map_sum id error (fst (executeSingleTask (demo_orch (demo_llm rising)) single_task [] ''{}'' world0))
     = Inr (Some ''No suitable tools found for this task'')
   \<and> ''No suitable tools found for this task'' \<noteq> ''no suitable tool''
   \<and> execute silent_tool ''{}'' = Inr (Output (Some 0) ''nothing found'')
   \<and> map_sum id (\<lambda>r. (success r, confidence r))
       (fst (executeSingleTask (demo_orch (demo_llm rising)) single_task [silent_tool] ''{}'' world0))
     = Inr (True, Num 1)"
  by (simp add: demo_defs executor_defs)

theorem single_task_runs_first_tool_witness:
  "map_sum id (\<lambda>r. (success r, confidence r, iterations r, length (results r)))
       (fst (executeSingleTask (demo_orch (demo_llm rising)) single_task [web_search, silent_tool]
               ''{}'' world0))
     = Inr (True, Num 0.8, 1, 1)
   \<and> executions (snd (executeSingleTask (demo_orch (demo_llm rising)) single_task
                        [web_search, silent_tool] ''{}'' world0)) = [''web_search'']"
proof -
  let ?orch = "demo_orch (demo_llm rising)"
  from single_task_runs_first_tool[of ?orch single_task "''{}''" world0 web_search "[silent_tool]"]
  obtain r res w1 where
    run: "executeSingleTask ?orch single_task [web_search, silent_tool] ''{}'' world0 = (Inr res, w1)"
    and shape: "iterations res = 1" "results res = [r]"
    and ex: "executions w1 = executions world0 @
              (case llm_generateToolInput (llm ?orch) web_search single_task ''{}'' [] of
                 Inl e \<Rightarrow> [] | Inr inp \<Rightarrow> [tool_id web_search])"
    and some: "\<forall>inp v payload.
               llm_generateToolInput (llm ?orch) web_search single_task ''{}'' [] = Inr inp
               \<and> execute web_search inp = Inr (Output (Some v) payload) \<and> v \<noteq> 0 \<longrightarrow>
               success res \<and> confidence res = Num v"
    by blast
  have "llm_generateToolInput (llm ?orch) web_search single_task ''{}'' [] = Inr ''{}''"
    "execute web_search ''{}'' = Inr (Output (Some 0.8) ''results'')"
    by (simp_all add: demo_defs)
  moreover have "(0.8::real) \<noteq> 0" by simp
  ultimately have "success res \<and> confidence res = Num 0.8"
    using some[rule_format, of "''{}''" "0.8" "''results''"] by blast
  moreover from ex have "executions w1 = [''web_search'']"
    by (simp add: demo_defs executions_def List.map_filter_def)
  ultimately show ?thesis using run shape by simp
qed

lemma executeTaskWithProgress_returns:
  "\<exists>res c1 w1. executeTaskWithProgress orch en ctx c w = (Inr res, c1, w1)"
proof -
  obtain x w1 where "executeTask orch (deref (setTaskInProgress (task_id (deref c en)) c) en) ctx w = (x, w1)"
    by force
  then show ?thesis by (cases x) (simp_all add: executeTaskWithProgress_def Let_def)
qed

text \<open>
  C8 (tool failure containment). \<open>callTool\<close> always returns a tool result. Whatever its
  \<open>try\<close> block throws (the tool itself, or the generation of its input) comes back as the
  result with \<open>success = false\<close>, \<open>confidence = 0\<close> and the message. The task goes
  on around it: a single-mode task always returns a result, an iterative task can only be left by
  an exception of the evaluation, and the wrapper of a task in a batch always returns a
  result.
\<close>

theorem tool_failure_contained:
  "(\<exists>r w1. callTool orch aTool t ctx prev w = (Inr r, w1))
   \<and> (callTool_try orch aTool t ctx prev w = (Inl e, w1) \<longrightarrow>
        callTool orch aTool t ctx prev w =
          (Inr \<lparr> tool_success = False, tool = tool_name aTool, tool_output = OutNull,
                 tool_duration = 0, tool_confidence = 0, tool_error = Some e \<rparr>, w1))
   \<and> (llm_generateToolInput (llm orch) aTool t ctx prev = Inr inp \<and> execute aTool inp = Inl e \<longrightarrow>
        fst (callTool orch aTool t ctx prev w) =
          Inr \<lparr> tool_success = False, tool = tool_name aTool, tool_output = OutNull,
                tool_duration = 0, tool_confidence = 0, tool_error = Some e \<rparr>)
   \<and> (llm_generateToolInput (llm orch) aTool t ctx prev = Inl e \<longrightarrow>
        fst (callTool orch aTool t ctx prev w) =
          Inr \<lparr> tool_success = False, tool = tool_name aTool, tool_output = OutNull,
                tool_duration = 0, tool_confidence = 0, tool_error = Some e \<rparr>)
   \<and> (\<exists>res w1. executeSingleTask orch t tools ctx w = (Inr res, w1))
   \<and> (executeIterativeTask orch t tools ctx w = (Inl e, w1) \<longrightarrow>
        (\<exists>rs. llm_evaluate (llm orch) t rs = Inl e))
   \<and> (\<exists>res c1 w1. executeTaskWithProgress orch en ctx c w = (Inr res, c1, w1))"
proof -
  have a: "\<exists>r w1. callTool orch aTool t ctx prev w = (Inr r, w1)" by (rule callTool_returns)
  have b: "callTool_try orch aTool t ctx prev w = (Inl e, w1) \<longrightarrow>
        callTool orch aTool t ctx prev w =
          (Inr \<lparr> tool_success = False, tool = tool_name aTool, tool_output = OutNull,
                 tool_duration = 0, tool_confidence = 0, tool_error = Some e \<rparr>, w1)"
    by (simp add: callTool_def)
  have c: "llm_generateToolInput (llm orch) aTool t ctx prev = Inr inp \<and> execute aTool inp = Inl e \<longrightarrow>
        fst (callTool orch aTool t ctx prev w) =
          Inr \<lparr> tool_success = False, tool = tool_name aTool, tool_output = OutNull,
                tool_duration = 0, tool_confidence = 0, tool_error = Some e \<rparr>"
    by (auto simp: callTool_def dest: callTool_try_execute_throws[where w = w])
  have d: "llm_generateToolInput (llm orch) aTool t ctx prev = Inl e \<longrightarrow>
        fst (callTool orch aTool t ctx prev w) =
          Inr \<lparr> tool_success = False, tool = tool_name aTool, tool_output = OutNull,
                tool_duration = 0, tool_confidence = 0, tool_error = Some e \<rparr>"
    by (auto simp: callTool_def dest: callTool_try_prepare_throws[where w = w])
  have e: "\<exists>res w1. executeSingleTask orch t tools ctx w = (Inr res, w1)"
  proof (cases tools)
    case Nil then show ?thesis by (simp add: executeSingleTask_def)
  next
    case (Cons first others)
    from callTool_returns[of orch first t ctx "[]" w] obtain r w1
      where "callTool orch first t ctx [] w = (Inr r, w1)" by blast
    with Cons show ?thesis by (simp add: executeSingleTask_def)
  qed
  have f: "executeIterativeTask orch t tools ctx w = (Inl e, w1) \<longrightarrow>
        (\<exists>rs. llm_evaluate (llm orch) t rs = Inl e)"
    by (auto dest: executeIterativeTask_Inl)
  from a b c d e f executeTaskWithProgress_returns[of orch en ctx c w] show ?thesis by blast
qed

theorem tool_failure_contained_witness:
  "fst (callTool (demo_orch (demo_llm rising)) broken_tool single_task ''{}'' [] world0) =
     Inr \<lparr> tool_success = False, tool = ''Broken'', tool_output = OutNull, tool_duration = 0,
           tool_confidence = 0, tool_error = Some ''connection refused'' \<rparr>"
  using tool_failure_contained[where orch = "demo_orch (demo_llm rising)" and aTool = broken_tool
      and t = single_task and ctx = "''{}''" and prev = "[]" and w = world0 and inp = "''{}''"
      and e = "''connection refused''"]
  by (simp add: demo_defs)
section \<open>The run loop\<close>

lemma getTask_iff:
  "distinct (map fst (tasks c)) \<Longrightarrow> getTask c k = Some t \<longleftrightarrow> (k, t) \<in> set (tasks c)"
  by (simp add: getTask_def)

lemma wellKeyed_id: "wellKeyed c \<Longrightarrow> getTask c k = Some t \<Longrightarrow> task_id t = k"
  by (auto simp: wellKeyed_def getTask_def list_all_iff dest: map_of_SomeD)

lemma keys_setTaskInProgress [simp]:
  "map fst (tasks (setTaskInProgress k c)) = map fst (tasks c)"
  by (auto simp: setTaskInProgress_def split: option.splits intro: keys_update_present)

lemma keys_updateTaskStatus [simp]:
  "map fst (tasks (updateTaskStatus now k res c)) = map fst (tasks c)"
  by (auto simp: updateTaskStatus_def split: option.splits intro: keys_update_present)

lemma wellKeyed_getTask:
  "wellKeyed c \<longleftrightarrow> distinct (map fst (tasks c)) \<and> (\<forall>k t. getTask c k = Some t \<longrightarrow> task_id t = k)"
  by (fastforce simp: wellKeyed_def list_all_iff getTask_iff)

lemma wellKeyed_setTaskInProgress: "wellKeyed c \<Longrightarrow> wellKeyed (setTaskInProgress k c)"
  unfolding wellKeyed_getTask by (auto simp: getTask_setTaskInProgress split: if_splits)

lemma wellKeyed_updateTaskStatus: "wellKeyed c \<Longrightarrow> wellKeyed (updateTaskStatus now k res c)"
  unfolding wellKeyed_getTask by (auto simp: getTask_updateTaskStatus split: if_splits)

lemma wellKeyed_Checklist: "wellKeyed (Checklist ts gd)"
proof -
  have "task_id t = k" if "getTask (Checklist ts gd) k = Some t" for k t
    using that by (auto simp: Checklist_lookup dest: find_Some_iff[THEN iffD1])
  moreover have "distinct (map fst (tasks (Checklist ts gd)))"
    by (simp add: Checklist_def distinct_Map_of_entries)
  ultimately show ?thesis unfolding wellKeyed_getTask by blast
qed

lemma deref_stored: "getTask c (fst e) = Some t \<Longrightarrow> deref c e = t"
  by (simp add: deref_def getTask_def)

lemma key_present: "k \<in> set (map fst (tasks c)) \<longleftrightarrow> (\<exists>t. getTask c k = Some t)"
  by (metis getTask_def domIff dom_map_of_conv_image_fst set_map option.exhaust option.distinct(1))

lemma executeTaskWithProgress_checklist:
  "executeTaskWithProgress orch e ctx c w = (res, c1, w1) \<Longrightarrow>
     c1 = setTaskInProgress (task_id (deref c e)) c"
  by (auto simp: executeTaskWithProgress_def Let_def split: prod.splits sum.splits)

lemma executeTaskWithProgress_keyed:
  assumes "wellKeyed c" "fst e \<in> set (map fst (tasks c))"
    and "executeTaskWithProgress orch e ctx c w = (res, c1, w1)"
  shows "c1 = setTaskInProgress (fst e) c"
proof -
  from assms(2) obtain t where t: "getTask c (fst e) = Some t" unfolding key_present by blast
  with assms(1) have "task_id (deref c e) = fst e" by (simp add: deref_stored wellKeyed_id)
  with executeTaskWithProgress_checklist[OF assms(3)] show ?thesis by simp
qed

lemma runBatch_returns:
  "\<exists>rs c1 w1. runBatch orch es ctx c w = (Inr rs, c1, w1) \<and> length rs = length es"
proof (induction es arbitrary: c w)
  case Nil then show ?case by simp
next
  case (Cons e es)
  from executeTaskWithProgress_returns[of orch e ctx c w] obtain r ca wa
    where 1: "executeTaskWithProgress orch e ctx c w = (Inr r, ca, wa)" by blast
  from Cons.IH[of ca wa] obtain rs cb wb
    where 2: "runBatch orch es ctx ca wa = (Inr rs, cb, wb)" "length rs = length es" by blast
  from 1 2 show ?case by simp
qed

lemma runBatch_checklist:
  assumes "wellKeyed c" "set (map fst es) \<subseteq> set (map fst (tasks c))"
    and "runBatch orch es ctx c w = (res, c1, w1)"
  shows "wellKeyed c1 \<and> map fst (tasks c1) = map fst (tasks c)
     \<and> (\<forall>k. getTask c1 k =
          (if k \<in> set (map fst es) then map_option (\<lambda>t. t\<lparr>status := in_progress\<rparr>) (getTask c k)
           else getTask c k))"
  using assms
proof (induction es arbitrary: c w res c1 w1)
  case Nil then show ?case by simp
next
  case (Cons e es)
  obtain r ca wa where 1: "executeTaskWithProgress orch e ctx c w = (r, ca, wa)"
    by (metis prod_cases3)
  obtain rest cb wb where 2: "runBatch orch es ctx ca wa = (rest, cb, wb)"
    by (metis prod_cases3)
  from Cons.prems(1,2) 1 have ca: "ca = setTaskInProgress (fst e) c"
    by (intro executeTaskWithProgress_keyed[where e = e]) simp_all
  from 1 2 Cons.prems(3) have c1: "c1 = cb" by (simp split: sum.splits)
  have "wellKeyed ca" unfolding ca by (rule wellKeyed_setTaskInProgress[OF Cons.prems(1)])
  moreover have "set (map fst es) \<subseteq> set (map fst (tasks ca))"
    unfolding ca using Cons.prems(2) by simp
  ultimately have ih: "wellKeyed cb" "map fst (tasks cb) = map fst (tasks ca)"
    "\<And>k. getTask cb k =
          (if k \<in> set (map fst es) then map_option (\<lambda>t. t\<lparr>status := in_progress\<rparr>) (getTask ca k)
           else getTask ca k)"
    using Cons.IH[OF _ _ 2] by simp_all
  have "getTask cb k =
          (if k \<in> set (map fst (e # es)) then map_option (\<lambda>t. t\<lparr>status := in_progress\<rparr>) (getTask c k)
           else getTask c k)" for k
    unfolding ih(3) ca
    by (cases "getTask c (fst e)") (auto simp: getTask_setTaskInProgress)
  with ih(1,2) show ?case unfolding c1 ca by simp
qed

text \<open>The batch is drawn from what \<open>getAvailableTasks\<close> returns, each task with its key.\<close>

lemma availableEntries_values: "map snd (availableEntries c) = getAvailableTasks c"
  by (simp add: availableEntries_def getAvailableTasks_def filter_map comp_def)

lemma availableEntries_subset: "set (availableEntries c) \<subseteq> set (tasks c)"
  by (auto simp: availableEntries_def)

lemma availableEntries_distinct:
  "distinct (map fst (tasks c)) \<Longrightarrow> distinct (map fst (availableEntries c))"
  unfolding availableEntries_def by (rule distinct_map_filter)

lemma batch_entries:
  assumes "distinct (map fst (tasks c))" and "e \<in> set (take n (availableEntries c))"
  shows "getTask c (fst e) = Some (snd e)" and "status (snd e) = pending"
proof -
  from assms(2) have mem: "e \<in> set (availableEntries c)" by (rule in_set_takeD)
  then have "(fst e, snd e) \<in> set (tasks c)" using availableEntries_subset by force
  with assms(1) show "getTask c (fst e) = Some (snd e)" by (simp add: getTask_iff)
  from mem show "status (snd e) = pending"
    by (auto simp: availableEntries_def isAvailable_def split: if_splits)
qed

lemma batch_keys:
  "set (map fst (take n (availableEntries c))) \<subseteq> set (map fst (tasks c))"
  using availableEntries_subset[of c] by (auto dest!: in_set_takeD)

lemma batch_distinct:
  "distinct (map fst (tasks c)) \<Longrightarrow> distinct (map fst (take n (availableEntries c)))"
  by (simp add: take_map[symmetric] availableEntries_distinct)

text \<open>What the recording loop leaves behind.\<close>

lemma recordResults_effect:
  assumes "wellKeyed c" "set (map fst es) \<subseteq> set (map fst (tasks c))"
    and "distinct (map fst es)" "length rs = length es"
    and "recordResults orch es rs c er w = (c1, er1, w1)"
  shows "wellKeyed c1 \<and> map fst (tasks c1) = map fst (tasks c)
     \<and> (\<forall>k. k \<notin> set (map fst es) \<longrightarrow> getTask c1 k = getTask c k)
     \<and> (\<forall>i < length es.
          map_option status (getTask c1 (fst (es ! i)))
            = Some (if success (rs ! i) then completed else failed)
          \<and> map_option result (getTask c1 (fst (es ! i))) = Some (Some (rs ! i)))
     \<and> map le_result (tasksCompleted er1) = map le_result (tasksCompleted er) @ rs"
  using assms
proof (induction es arbitrary: rs c er w)
  case Nil then show ?case by simp
next
  case (Cons e es)
  from Cons.prems(4) obtain r rest where rs: "rs = r # rest" "length rest = length es"
    by (cases rs) auto
  define now1 where "now1 = fst (Date_now orch w)"
  define wa where "wa = snd (Date_now orch w)"
  define ca where "ca = updateTaskStatus now1 (task_id (deref c e)) r c"
  define now2 where "now2 = fst (Date_now orch wa)"
  define wb where "wb = snd (Date_now orch wa)"
  define era where "era = er\<lparr>tasksCompleted := tasksCompleted er @
                 [\<lparr> le_task = deref ca e, le_result = r, le_timestamp = now2 \<rparr>]\<rparr>"
  from Cons.prems(5) have rec: "recordResults orch es rest ca era wb = (c1, er1, w1)"
    unfolding rs by (simp add: Let_def now1_def wa_def ca_def now2_def wb_def era_def
        split: prod.splits)
  from Cons.prems(2) have "fst e \<in> set (map fst (tasks c))" by simp
  then obtain t where t: "getTask c (fst e) = Some t"
    unfolding key_present by blast
  with Cons.prems(1) have key: "task_id (deref c e) = fst e"
    by (simp add: deref_stored wellKeyed_id)
  have ca': "ca = updateTaskStatus now1 (fst e) r c" unfolding ca_def key ..
  have wk: "wellKeyed ca" unfolding ca' by (rule wellKeyed_updateTaskStatus[OF Cons.prems(1)])
  have keys: "set (map fst es) \<subseteq> set (map fst (tasks ca))"
    unfolding ca' using Cons.prems(2) by simp
  from Cons.prems(3) have dist: "distinct (map fst es)" and fresh: "fst e \<notin> set (map fst es)"
    by simp_all
  from Cons.IH[OF wk keys dist rs(2) rec]
  have ih: "wellKeyed c1" "map fst (tasks c1) = map fst (tasks ca)"
    "\<And>k. k \<notin> set (map fst es) \<Longrightarrow> getTask c1 k = getTask ca k"
    "\<And>i. i < length es \<Longrightarrow>
          map_option status (getTask c1 (fst (es ! i)))
            = Some (if success (rest ! i) then completed else failed)
          \<and> map_option result (getTask c1 (fst (es ! i))) = Some (Some (rest ! i))"
    "map le_result (tasksCompleted er1) = map le_result (tasksCompleted era) @ rest"
    by simp_all
  have other: "getTask c1 k = getTask c k" if "k \<notin> set (map fst (e # es))" for k
  proof -
    from that have "getTask c1 k = getTask ca k" by (intro ih(3)) simp
    with that show ?thesis unfolding ca' by (simp add: getTask_updateTaskStatus)
  qed
  have head: "getTask c1 (fst e) = getTask ca (fst e)" using fresh by (rule ih(3))
  have member: "map_option status (getTask c1 (fst ((e # es) ! i)))
            = Some (if success (rs ! i) then completed else failed)
          \<and> map_option result (getTask c1 (fst ((e # es) ! i))) = Some (Some (rs ! i))"
    if "i < length (e # es)" for i
  proof (cases i)
    case 0
    then show ?thesis unfolding rs using head t by (simp add: ca' getTask_updateTaskStatus)
  next
    case (Suc j)
    with that ih(4)[of j] show ?thesis unfolding rs by simp
  qed
  have ledger: "map le_result (tasksCompleted er1) = map le_result (tasksCompleted er) @ rs"
    unfolding ih(5) rs era_def by simp
  from ih(1,2) other member ledger show ?case unfolding ca' by simp
qed




lemma strategizeArgs_issue:
  "strategizeArgs (issue ev w) =
     strategizeArgs w @ (case ev of Strategize es \<Rightarrow> [es] | _ \<Rightarrow> [])"
  by (cases ev) (simp_all add: strategizeArgs_def issue_def List.map_filter_def)

lemma strategizeArgs_Date_now [simp]:
  "strategizeArgs (snd (Date_now orch w)) = strategizeArgs w"
  by (simp add: strategizeArgs_def Date_now_def)

lemma strategizeArgs_fields [simp]:
  "strategizeArgs (w\<lparr>executionHistory := h\<rparr>) = strategizeArgs w"
  "strategizeArgs (w\<lparr>ticks := n\<rparr>) = strategizeArgs w"
  by (simp_all add: strategizeArgs_def)

lemma callTool_try_quiet:
  "callTool_try orch aTool t ctx prev w = (res, w1) \<Longrightarrow> strategizeArgs w1 = strategizeArgs w"
  by (auto simp: callTool_try_def prepareToolInput_def Let_def strategizeArgs_def issue_def
      Date_now_def List.map_filter_def split: prod.splits sum.splits toolOutput.splits)

lemma callTool_quiet:
  "callTool orch aTool t ctx prev w = (res, w1) \<Longrightarrow> strategizeArgs w1 = strategizeArgs w"
  by (rule callTool_cases[of orch aTool t ctx prev w]) (auto dest: callTool_try_quiet)

lemma toolRound_quiet:
  "toolRound orch t ctx tools rs conf w = (res, w1) \<Longrightarrow> strategizeArgs w1 = strategizeArgs w"
proof (induction tools arbitrary: rs conf w)
  case Nil then show ?case by simp
next
  case (Cons aTool moreTools)
  from callTool_returns[of orch aTool t ctx rs w] obtain r wa
    where ct: "callTool orch aTool t ctx rs w = (Inr r, wa)" by blast
  have q: "strategizeArgs (issue Evaluate wa) = strategizeArgs w"
    using callTool_quiet[OF ct] by (simp add: strategizeArgs_issue)
  show ?case
  proof (cases "llm_evaluate (llm orch) t (rs @ [r])")
    case (Inl e) with Cons.prems ct q show ?thesis by (auto simp: evaluateProgress_def)
  next
    case (Inr v)
    show ?thesis
    proof (cases "js_atLeast v (successThreshold t)")
      case True with Cons.prems ct Inr q show ?thesis by (auto simp: evaluateProgress_def)
    next
      case False
      with Cons.prems ct Inr
      have "toolRound orch t ctx moreTools (rs @ [r]) v (issue Evaluate wa) = (res, w1)"
        by (simp add: evaluateProgress_def)
      from Cons.IH[OF this] q show ?thesis by simp
    qed
  qed
qed

lemma iterativeLoop_quiet:
  "iterativeLoop orch t tools ctx m rs conf its w = (res, w1) \<Longrightarrow>
     strategizeArgs w1 = strategizeArgs w"
proof (induction orch t tools ctx m rs conf its w rule: iterativeLoop.induct)
  case (1 orch t tools ctx m rs conf its w)
  show ?case
  proof (cases "js_less conf (successThreshold t) \<and> real its < m")
    case False with "1.prems" show ?thesis by (auto simp: iterativeLoop.simps)
  next
    case True
    obtain x wa where tr: "toolRound orch t ctx tools rs conf w = (x, wa)" by force
    note q = toolRound_quiet[OF tr]
    show ?thesis
    proof (cases x)
      case (Inl e) with True tr "1.prems" q show ?thesis by (auto simp: iterativeLoop.simps)
    next
      case (Inr p)
      obtain rsa confa where p: "p = (rsa, confa)" by force
      with True tr Inr "1.prems"
      have "iterativeLoop orch t tools ctx m rsa confa (Suc its) wa = (res, w1)"
        by (simp add: iterativeLoop.simps)
      from "1.IH"[OF True tr[symmetric] Inr p[symmetric] this] q show ?thesis by simp
    qed
  qed
qed

lemma executeTask_quiet:
  "executeTask orch t ctx w = (res, w1) \<Longrightarrow> strategizeArgs w1 = strategizeArgs w"
proof -
  assume a: "executeTask orch t ctx w = (res, w1)"
  have sel: "strategizeArgs (snd (selectTools orch t w)) = strategizeArgs w"
    by (simp add: selectTools_def Let_def strategizeArgs_issue split: sum.splits)
  have it: "strategizeArgs wb = strategizeArgs wa"
    if "executeIterativeTask orch t tools ctx wa = (x, wb)" for tools wa x wb
    using that
    by (auto simp: executeIterativeTask_def Let_def split: prod.splits sum.splits
        dest: iterativeLoop_quiet)
  have si: "strategizeArgs wb = strategizeArgs wa"
    if "executeSingleTask orch t tools ctx wa = (x, wb)" for tools wa x wb
    using that
    by (auto simp: executeSingleTask_def split: list.splits prod.splits sum.splits
        dest: callTool_quiet)
  obtain s ws where s: "selectTools orch t w = (s, ws)" by force
  with sel have ws: "strategizeArgs ws = strategizeArgs w" by simp
  show ?thesis
  proof (cases s)
    case (Inl e) with a s ws show ?thesis by (auto simp: executeTask_def)
  next
    case (Inr tools)
    with a s ws it[of tools ws res w1] si[of tools ws res w1] show ?thesis
      by (auto simp: executeTask_def split: if_splits)
  qed
qed

lemma executeTaskWithProgress_quiet:
  "executeTaskWithProgress orch e ctx c w = (res, c1, w1) \<Longrightarrow>
     strategizeArgs w1 = strategizeArgs w"
  by (auto simp: executeTaskWithProgress_def Let_def split: prod.splits sum.splits
      dest: executeTask_quiet)

lemma runBatch_quiet:
  "runBatch orch es ctx c w = (res, c1, w1) \<Longrightarrow> strategizeArgs w1 = strategizeArgs w"
proof (induction es arbitrary: c w res c1 w1)
  case Nil then show ?case by simp
next
  case (Cons e es)
  obtain r ca wa where 1: "executeTaskWithProgress orch e ctx c w = (r, ca, wa)"
    by (metis prod_cases3)
  obtain rest cb wb where 2: "runBatch orch es ctx ca wa = (rest, cb, wb)"
    by (metis prod_cases3)
  from 1 2 Cons.prems have "w1 = wb" by (simp split: sum.splits)
  with executeTaskWithProgress_quiet[OF 1] Cons.IH[OF 2] show ?case by simp
qed

lemma recordResults_quiet:
  "recordResults orch es rs c er w = (c1, er1, w1) \<Longrightarrow> strategizeArgs w1 = strategizeArgs w"
proof (induction es arbitrary: rs c er w)
  case Nil then show ?case by simp
next
  case (Cons e es)
  show ?case
  proof (cases rs)
    case Nil with Cons.prems show ?thesis by simp
  next
    case (Cons r rest)
    define wa where "wa = snd (Date_now orch w)"
    define wb where "wb = snd (Date_now orch wa)"
    from Cons.prems obtain ca era where
      "recordResults orch es rest ca era wb = (c1, er1, w1)"
      unfolding Cons by (auto simp: Let_def wa_def wb_def split: prod.splits)
    from Cons.IH[OF this] show ?thesis by (simp add: wa_def wb_def)
  qed
qed

lemma reflectAndAdapt_calls:
  "reflectAndAdapt orch c er w = (res, c1, w1) \<Longrightarrow>
     strategizeArgs w1 = strategizeArgs w
       @ (if highFailureRate (slice_last 5 (tasksCompleted er))
          then [slice_last 5 (tasksCompleted er)] else [])"
  by (auto simp: reflectAndAdapt_def Let_def strategizeArgs_issue split: if_splits sum.splits)

lemma recordResults_split:
  "recordResults orch es rs c er w = (c1, er1, w1) \<longleftrightarrow>
     c1 = fst (recordResults orch es rs c er w)
     \<and> er1 = fst (snd (recordResults orch es rs c er w))
     \<and> w1 = snd (snd (recordResults orch es rs c er w))"
  by (cases "recordResults orch es rs c er w") auto

text \<open>The steps of a round of the main loop that reaches the reflection.\<close>

lemma iteration_Continue:
  assumes "iteration orch ctx gd c er w = (Inr (Continue, c', er'), w')"
  obtains wa rs c2 w2 c3 er3 w3 where
    "isGoalAchieved orch gd c w = (Inr False, wa)"
    "availableEntries c \<noteq> []"
    "runBatch orch (take 3 (availableEntries c)) ctx c wa = (Inr rs, c2, w2)"
    "recordResults orch (take 3 (availableEntries c)) rs c2 er w2 = (c3, er3, w3)"
    "reflectAndAdapt orch c3 er3 w3 = (Inr (), c', w')"
    "er' = er3\<lparr>er_iterations := Suc (er_iterations er3)\<rparr>"
proof -
  obtain g wa where g: "isGoalAchieved orch gd c w = (g, wa)" by force
  from assms g obtain a where ga: "g = Inr a"
    by (cases g) (auto simp: iteration_def)
  from assms g ga have na: "\<not> a" and ne: "availableEntries c \<noteq> []"
    by (auto simp: iteration_def Let_def split: if_splits)
  obtain b c2 w2 where rb: "runBatch orch (take 3 (availableEntries c)) ctx c wa = (b, c2, w2)"
    by (metis prod_cases3)
  from assms g ga na ne rb obtain rs where b: "b = Inr rs"
    by (cases b) (auto simp: iteration_def Let_def)
  obtain c3 er3 w3 where
    rr: "recordResults orch (take 3 (availableEntries c)) rs c2 er w2 = (c3, er3, w3)"
    by (metis prod_cases3)
  obtain x c4 w4 where ra: "reflectAndAdapt orch c3 er3 w3 = (x, c4, w4)"
    by (metis prod_cases3)
  from assms g ga na ne rb b rr ra
  have "x = Inr ()" "c4 = c'" "w4 = w'" "er' = er3\<lparr>er_iterations := Suc (er_iterations er3)\<rparr>"
    by (cases x; simp add: iteration_def Let_def)+
  with g ga na ne rb b rr ra show ?thesis by (intro that[of wa rs c2 w2 c3 er3 w3]) simp_all
qed

lemma iteration_Break_calls:
  assumes "iteration orch ctx gd c er w = (Inr (Break, c', er'), w')"
  shows "strategizeArgs w' = strategizeArgs w \<and> c' = c"
proof -
  obtain g wa where g: "isGoalAchieved orch gd c w = (g, wa)" by force
  then have wa: "strategizeArgs wa = strategizeArgs w"
    by (auto simp: isGoalAchieved_def Let_def strategizeArgs_issue)
  obtain b c2 w2 where rb: "runBatch orch (take 3 (availableEntries c)) ctx c wa = (b, c2, w2)"
    by (metis prod_cases3)
  obtain c3 er3 w3 where
    rr: "recordResults orch (take 3 (availableEntries c)) (projr b) c2 er w2 = (c3, er3, w3)"
    by (metis prod_cases3)
  obtain x c4 w4 where ra: "reflectAndAdapt orch c3 er3 w3 = (x, c4, w4)"
    by (metis prod_cases3)
  from assms g rb rr ra have "w' = wa \<and> c' = c"
    by (cases g; cases b; cases x)
      (auto simp: iteration_def Let_def split: if_splits)
  with wa show ?thesis by simp
qed

lemma iteration_Inl_calls:
  assumes "iteration orch ctx gd c er w = (Inl e, w')"
  shows "strategizeArgs w' = strategizeArgs w \<or> (\<exists>es. strategizeArgs w' = strategizeArgs w @ [es])"
proof -
  obtain g wa where g: "isGoalAchieved orch gd c w = (g, wa)" by force
  then have wa: "strategizeArgs wa = strategizeArgs w"
    by (auto simp: isGoalAchieved_def Let_def strategizeArgs_issue)
  obtain b c2 w2 where rb: "runBatch orch (take 3 (availableEntries c)) ctx c wa = (b, c2, w2)"
    by (metis prod_cases3)
  obtain c3 er3 w3 where
    rr: "recordResults orch (take 3 (availableEntries c)) (projr b) c2 er w2 = (c3, er3, w3)"
    by (metis prod_cases3)
  obtain x c4 w4 where ra: "reflectAndAdapt orch c3 er3 w3 = (x, c4, w4)"
    by (metis prod_cases3)
  from runBatch_returns[of orch "take 3 (availableEntries c)" ctx c wa] rb
  obtain rs where b: "b = Inr rs" by auto
  from assms g rb rr ra b have "w' = wa \<or> w' = w4"
    by (cases g; cases x) (auto simp: iteration_def Let_def split: if_splits)
  moreover have "strategizeArgs w4 = strategizeArgs w
      \<or> (\<exists>es. strategizeArgs w4 = strategizeArgs w @ [es])"
    using wa runBatch_quiet[OF rb] recordResults_quiet[OF rr] reflectAndAdapt_calls[OF ra]
    by simp
  ultimately show ?thesis using wa by auto
qed


lemma highFailureRate_iff:
  "highFailureRate xs \<longleftrightarrow>
     xs \<noteq> [] \<and> 3 * length xs < 5 * length (filter (\<lambda>t. \<not> success (le_result t)) xs)"
proof (cases "xs = []")
  case True then show ?thesis by (simp add: highFailureRate_def failureRate_def)
next
  case False
  then have pos: "0 < real (length xs)" by simp
  have "(0.6 < real (length (filter (\<lambda>t. \<not> success (le_result t)) xs)) / real (length xs))
      \<longleftrightarrow> 0.6 * real (length xs) < real (length (filter (\<lambda>t. \<not> success (le_result t)) xs))"
    using pos by (simp add: pos_less_divide_eq)
  also have "\<dots> \<longleftrightarrow> real (3 * length xs) < real (5 * length (filter (\<lambda>t. \<not> success (le_result t)) xs))"
    by (simp add: mult.commute)
  also have "\<dots> \<longleftrightarrow> 3 * length xs < 5 * length (filter (\<lambda>t. \<not> success (le_result t)) xs)"
    by (rule of_nat_less_iff)
  finally show ?thesis using False by (simp add: highFailureRate_def failureRate_def)
qed





lemma terminal_outside_batch:
  assumes wk: "wellKeyed c" and t: "getTask c k = Some t" and fin: "status t \<noteq> pending"
  shows "k \<notin> set (map fst (take n (availableEntries c)))"
proof
  assume "k \<in> set (map fst (take n (availableEntries c)))"
  then obtain e where e: "e \<in> set (take n (availableEntries c))" "fst e = k" by auto
  from wk have "distinct (map fst (tasks c))" by (simp add: wellKeyed_def)
  from batch_entries[OF this e(1)] e(2) t fin show False by simp
qed

lemma batch_keeps_terminal:
  assumes wk: "wellKeyed c" and t: "getTask c k = Some t" and fin: "status t \<noteq> pending"
    and run: "runBatch orch (take 3 (availableEntries c)) ctx c w = (Inr rs, c2, w2)"
    and rec: "recordResults orch (take 3 (availableEntries c)) rs c2 er w2 = (c3, er3, w3)"
  shows "getTask c3 k = Some t"
proof -
  let ?es = "take 3 (availableEntries c)"
  from wk have dk: "distinct (map fst (tasks c))" by (simp add: wellKeyed_def)
  note out = terminal_outside_batch[OF wk t fin, of 3]
  note b = runBatch_checklist[OF wk batch_keys run]
  from b out have g2: "getTask c2 k = getTask c k" by simp
  from b have wk2: "wellKeyed c2" and k2: "map fst (tasks c2) = map fst (tasks c)" by simp_all
  have keys2: "set (map fst ?es) \<subseteq> set (map fst (tasks c2))" unfolding k2 by (rule batch_keys)
  from runBatch_returns[of orch ?es ctx c w] run have len: "length rs = length ?es" by auto
  from recordResults_effect[OF wk2 keys2 batch_distinct[OF dk] len rec] out
  have "getTask c3 k = getTask c2 k" by blast
  with g2 t show ?thesis by simp
qed

text \<open>
  C1 (status monotonicity), as the code has it. \<open>applyAdjustments\<close> keeps the status of the
  task stored under an id when no \<open>modify\<close> adjustment for that id carries a status and no
  \<open>add\<close> adjustment is stored under that id. The orchestrator only marks tasks of the
  batch in progress, and these are pending: when every task is stored under its own id, a
  completed or failed task is left as it is by the dispatch of a batch and the recording
  of its results, and by a whole round of the main loop in which the reflection is not
  triggered. The constructor stores every task under its own id.
\<close>

theorem terminal_status_kept:
  "(statusUntouched clock i k adjs \<longrightarrow>
      map_option status (getTask (applyAdjustments clock i adjs c) k)
        = map_option status (getTask c k))
   \<and> (wellKeyed c \<and> getTask c k = Some t \<and> (status t = completed \<or> status t = failed)
       \<and> runBatch orch (take 3 (availableEntries c)) ctx c w = (Inr rs, c2, w2) \<longrightarrow>
        getTask (fst (recordResults orch (take 3 (availableEntries c)) rs c2 er w2)) k = Some t)
   \<and> (wellKeyed c \<and> getTask c k = Some t \<and> (status t = completed \<or> status t = failed)
       \<and> iteration orch ctx gd c er w = (Inr (ctl, c', er'), w')
       \<and> \<not> highFailureRate (slice_last 5 (tasksCompleted er')) \<longrightarrow>
        getTask c' k = Some t)
   \<and> (en \<in> set (take 3 (availableEntries c)) \<longrightarrow> status (snd en) = pending)
   \<and> wellKeyed (Checklist ts gd)"
proof -
  have adj: "statusUntouched clock i k adjs \<longrightarrow>
      map_option status (getTask (applyAdjustments clock i adjs c) k)
        = map_option status (getTask c k)"
    by (simp add: status_applyAdjustments)
  have batch: "getTask (fst (recordResults orch (take 3 (availableEntries c)) rs c2 er w2)) k = Some t"
    if "wellKeyed c" "getTask c k = Some t" "status t = completed \<or> status t = failed"
      "runBatch orch (take 3 (availableEntries c)) ctx c w = (Inr rs, c2, w2)"
  proof -
    from that(3) have "status t \<noteq> pending" by auto
    from batch_keeps_terminal[OF that(1,2) this that(4)] show ?thesis
      by (simp add: recordResults_split)
  qed
  have round: "getTask c' k = Some t"
    if wk: "wellKeyed c" and t: "getTask c k = Some t"
      and fin: "status t = completed \<or> status t = failed"
      and it: "iteration orch ctx gd c er w = (Inr (ctl, c', er'), w')"
      and calm: "\<not> highFailureRate (slice_last 5 (tasksCompleted er'))"
  proof (cases ctl)
    case Break
    with it iteration_Break_calls[of orch ctx gd c er w c' er' w'] t show ?thesis by simp
  next
    case Continue
    from fin have np: "status t \<noteq> pending" by auto
    show ?thesis
    proof (rule iteration_Continue[OF it[unfolded Continue]])
      fix wa rs c2 w2 c3 er3 w3
      assume rb: "runBatch orch (take 3 (availableEntries c)) ctx c wa = (Inr rs, c2, w2)"
        and rr: "recordResults orch (take 3 (availableEntries c)) rs c2 er w2 = (c3, er3, w3)"
        and ra: "reflectAndAdapt orch c3 er3 w3 = (Inr (), c', w')"
        and er': "er' = er3\<lparr>er_iterations := Suc (er_iterations er3)\<rparr>"
      from calm er' have "\<not> highFailureRate (slice_last 5 (tasksCompleted er3))" by simp
      with ra have "c' = c3" by (simp add: reflectAndAdapt_def Let_def)
      with batch_keeps_terminal[OF wk t np rb rr] show ?thesis by simp
    qed
  qed
  have pend: "en \<in> set (take 3 (availableEntries c)) \<longrightarrow> status (snd en) = pending"
    by (auto dest!: in_set_takeD simp: availableEntries_def isAvailable_def split: if_splits)
  from adj batch round pend wellKeyed_Checklist[of ts gd] show ?thesis by blast
qed

lemma done_checklist_eval:
  "tasks done_checklist =
     [(''a'', (demo_task ''a'' None completed)\<lparr>result := Some ok_result,
                                                completedAt := Some 1730000000000\<rparr>)]"
  by (simp add: done_checklist_def Checklist_def Map_of_entries_def updateTaskStatus_def
      demo_task_def ok_result_def)

text \<open>
  The status of a completed task is not protected: \<open>modify(a, {status: pending})\<close> resets
  it, and \<open>setTaskInProgress\<close> has no guard and moves it to \<open>in_progress\<close>.
\<close>

theorem terminal_status_rewritten_counterexample:
  "map status (getAllTasks done_checklist) = [completed]
   \<and> map status (getAllTasks (applyAdjustments (\<lambda>i. 0) 0
        [Modify ''a'' (noModifications\<lparr>m_status := Some pending\<rparr>)] done_checklist)) = [pending]
   \<and> map status (getAllTasks (setTaskInProgress ''a'' done_checklist)) = [in_progress]"
  by (simp add: getAllTasks_def done_checklist_eval setTaskInProgress_def Object_assign_def
      patch_def patch_opt_def noModifications_def demo_task_def)

lemmas run_defs = iteration_def isGoalAchieved_def availableEntries_def isAvailable_def
  executeTaskWithProgress_def executeTask_def selectTools_def reflectAndAdapt_def
  highFailureRate_def failureRate_def slice_last_def deref_def setTaskInProgress_def
  updateTaskStatus_def getCompletedTasks_def getAllTasks_def getAvailableTools_def
  Object_assign_def patch_def patch_opt_def noModifications_def




lemma two_ready_eval:
  "tasks two_ready = [(''t1'', demo_task ''t1'' None pending), (''t2'', demo_task ''t2'' None pending)]"
  by (simp add: two_ready_def Checklist_def Map_of_entries_def demo_task_def)


lemma half_done_eval:
  "tasks half_done =
     [(''t1'', (demo_task ''t1'' None completed)\<lparr>result := Some ok_result,
                                                 completedAt := Some 1730000000000\<rparr>),
      (''t2'', demo_task ''t2'' None pending)]"
  by (simp add: half_done_def two_ready_eval updateTaskStatus_def demo_task_def ok_result_def)

theorem terminal_status_kept_witness:
  "map_option status (getTask (applyAdjustments (\<lambda>i. 0) 0
       [Reorder ''a'' 9, Modify ''a'' (noModifications\<lparr>m_priority := Some 1\<rparr>),
        Add (bare_task ''more'')] done_checklist) ''a'') = Some completed
   \<and> map_sum id (\<lambda>(ctl, c', er'). (ctl, getTask c' ''t1'', map_option status (getTask c' ''t2'')))
       (fst (iteration (demo_orch (demo_llm rising)) ''{}'' demo_goal half_done er0 world0))
     = Inr (Continue, getTask half_done ''t1'', Some completed)"
proof -
  let ?adjs = "[Reorder ''a'' 9, Modify ''a'' (noModifications\<lparr>m_priority := Some 1\<rparr>),
        Add (bare_task ''more'')]"
  let ?orch = "demo_orch (demo_llm rising)"
  let ?t1 = "(demo_task ''t1'' None completed)\<lparr>result := Some ok_result,
                                                 completedAt := Some 1730000000000\<rparr>"
  have "statusUntouched (\<lambda>i. 0) 0 ''a'' ?adjs"
    by (simp add: noModifications_def newTaskId_def bare_task_def)
  with terminal_status_kept[where clock = "\<lambda>i. 0" and i = 0 and k = "''a''" and c = done_checklist
      and adjs = ?adjs]
  have "map_option status (getTask (applyAdjustments (\<lambda>i. 0) 0 ?adjs done_checklist) ''a'')
      = map_option status (getTask done_checklist ''a'')" by blast
  then have first: "map_option status (getTask (applyAdjustments (\<lambda>i. 0) 0 ?adjs done_checklist) ''a'')
      = Some completed" by (simp add: getTask_def done_checklist_eval demo_task_def)
  have shape: "map_sum id (\<lambda>(ctl, c', er'). (ctl, map_option status (getTask c' ''t2''),
                               map (\<lambda>x. success (le_result x)) (tasksCompleted er')))
       (fst (iteration ?orch ''{}'' demo_goal half_done er0 world0))
     = Inr (Continue, Some completed, [True])"
    by (simp add: run_defs half_done_eval er0_def demo_defs executor_defs getTool_def
        List.map_filter_def getTask_def)
  obtain x w' where it: "iteration ?orch ''{}'' demo_goal half_done er0 world0 = (x, w')" by force
  with shape obtain c' er' where x: "x = Inr (Continue, c', er')"
    and t2: "map_option status (getTask c' ''t2'') = Some completed"
    and led: "map (\<lambda>x. success (le_result x)) (tasksCompleted er') = [True]"
    by (cases x) auto
  from led have calm: "\<not> highFailureRate (slice_last 5 (tasksCompleted er'))"
    by (auto simp: highFailureRate_iff slice_last_def map_eq_Cons_conv)
  have wk: "wellKeyed half_done" by (simp add: wellKeyed_def half_done_eval demo_task_def)
  have g: "getTask half_done ''t1'' = Some ?t1" by (simp add: getTask_def half_done_eval)
  have st: "status ?t1 = completed \<or> status ?t1 = failed" by (simp add: demo_task_def)
  from terminal_status_kept[where c = half_done and k = "''t1''" and t = ?t1 and orch = ?orch
      and ctx = "''{}''" and gd = demo_goal and er = er0 and w = world0 and ctl = Continue
      and c' = c' and er' = er' and w' = w'] wk g st it[unfolded x] calm
  have "getTask c' ''t1'' = Some ?t1" by blast
  with first it x t2 g show ?thesis by simp
qed

end
